theory Spec2Isabelle
  imports Complex_Main "HOL-Library.AList" "HOL-Library.Sublist"
begin

section \<open>File attributes\<close>

text \<open>
  The file-format field of \<open>st_mode\<close> (what \<open>stat.S_IFMT\<close> extracts) distinguishes
  directories, symbolic links, regular files and the four special kinds. A mode is the
  pair of that field and the permission bits (what \<open>stat.S_IMODE\<close> extracts).
\<close>

datatype special = S_IFBLK | S_IFCHR | S_IFIFO | S_IFSOCK

datatype ftype = S_IFDIR | S_IFLNK | S_IFREG | S_IFSPECIAL special

type_synonym mode = "ftype \<times> nat"

definition S_IFMT :: "mode \<Rightarrow> ftype" where
  "S_IFMT m = fst m"

definition S_IMODE :: "mode \<Rightarrow> nat" where
  "S_IMODE m = snd m"

definition S_ISDIR :: "mode \<Rightarrow> bool" where
  "S_ISDIR m = (S_IFMT m = S_IFDIR)"

definition S_ISLNK :: "mode \<Rightarrow> bool" where
  "S_ISLNK m = (S_IFMT m = S_IFLNK)"

definition S_ISREG :: "mode \<Rightarrow> bool" where
  "S_ISREG m = (S_IFMT m = S_IFREG)"

text \<open>
  A stat result. Locally (\<open>os.lstat\<close>) the times are fractional seconds, modelled as
  rationals; remotely (\<open>SFTPAttributes\<close>) they are whole seconds.
\<close>

record 't stat =
  st_mode :: mode
  st_size :: nat
  st_atime :: 't
  st_mtime :: 't
  st_uid :: nat
  st_gid :: nat

text \<open>Python's \<open>int(x)\<close> on a float truncates towards zero.\<close>

definition py_int :: "rat \<Rightarrow> int" where
  "py_int x = (if 0 \<le> x then \<lfloor>x\<rfloor> else \<lceil>x\<rceil>)"

section \<open>File trees\<close>

text \<open>
  A node of a file tree carries its metadata; a directory carries its entries in listing
  order, a symbolic link its raw target string. The kind of a node is its constructor, so
  the file-format field of its mode cannot disagree with its content. A path below a root
  is the list of its name components: \<open>join(root, relative_path, f)\<close> is the component
  list of \<open>relative_path\<close> extended by \<open>f\<close>, and the same relative path addresses the
  local and the remote tree.
\<close>

type_synonym path = "string list"

record 't meta =
  m_perm :: nat
  m_size :: nat
  m_atime :: 't
  m_mtime :: 't
  m_uid :: nat
  m_gid :: nat

datatype 't node =
    Dir "'t meta" "(string \<times> 't node) list"
  | Lnk "'t meta" string
  | Reg "'t meta"
  | Special special "'t meta"

fun node_meta :: "'t node \<Rightarrow> 't meta" where
  "node_meta (Dir m cs) = m"
| "node_meta (Lnk m t) = m"
| "node_meta (Reg m) = m"
| "node_meta (Special k m) = m"

fun node_type :: "'t node \<Rightarrow> ftype" where
  "node_type (Dir m cs) = S_IFDIR"
| "node_type (Lnk m t) = S_IFLNK"
| "node_type (Reg m) = S_IFREG"
| "node_type (Special k m) = S_IFSPECIAL k"

fun set_meta :: "'t meta \<Rightarrow> 't node \<Rightarrow> 't node" where
  "set_meta m' (Dir m cs) = Dir m' cs"
| "set_meta m' (Lnk m t) = Lnk m' t"
| "set_meta m' (Reg m) = Reg m'"
| "set_meta m' (Special k m) = Special k m'"

text \<open>The non-following stat of a node.\<close>

definition lstat_of :: "'t node \<Rightarrow> 't stat" where
  "lstat_of n =
     \<lparr>st_mode = (node_type n, m_perm (node_meta n)),
      st_size = m_size (node_meta n),
      st_atime = m_atime (node_meta n),
      st_mtime = m_mtime (node_meta n),
      st_uid = m_uid (node_meta n),
      st_gid = m_gid (node_meta n)\<rparr>"

fun lookup :: "'t node \<Rightarrow> path \<Rightarrow> 't node option" where
  "lookup t [] = Some t"
| "lookup t (n # p) =
     (case t of
        Dir m cs \<Rightarrow> (case map_of cs n of None \<Rightarrow> None | Some c \<Rightarrow> lookup c p)
      | _ \<Rightarrow> None)"

text \<open>
  \<open>alter p f t\<close> replaces the entry at the non-empty path \<open>p\<close> by \<open>f\<close> of what is there
  (\<open>None\<close> when the parent directory has no such entry); \<open>f\<close> returning \<open>None\<close> removes
  the entry. Nothing changes when the parent of \<open>p\<close> is not a directory of the tree.
\<close>

fun alter :: "path \<Rightarrow> ('t node option \<Rightarrow> 't node option) \<Rightarrow> 't node \<Rightarrow> 't node" where
  "alter [] f t = t"
| "alter [n] f t =
     (case t of
        Dir m cs \<Rightarrow>
          (case f (map_of cs n) of
             None \<Rightarrow> Dir m (AList.delete n cs)
           | Some c \<Rightarrow> Dir m (AList.update n c cs))
      | _ \<Rightarrow> t)"
| "alter (n # p) f t =
     (case t of
        Dir m cs \<Rightarrow>
          (case map_of cs n of
             None \<Rightarrow> t
           | Some c \<Rightarrow> Dir m (AList.update n (alter p f c) cs))
      | _ \<Rightarrow> t)"

text \<open>The remote root may be absent: the remote tree is an optional node.\<close>

fun rlookup :: "'t node option \<Rightarrow> path \<Rightarrow> 't node option" where
  "rlookup None p = None"
| "rlookup (Some t) p = lookup t p"

fun ralter :: "path \<Rightarrow> ('t node option \<Rightarrow> 't node option) \<Rightarrow> 't node option \<Rightarrow> 't node option" where
  "ralter [] f r = f r"
| "ralter p f None = None"
| "ralter p f (Some t) = Some (alter p f t)"

section \<open>The local file system\<close>

text \<open>
  The local tree is only read. \<open>realpath\<close> is the operating system's path
  canonicalisation (\<open>os.path.realpath\<close>), which depends on the whole local file system
  and the working directory; it is a parameter.
\<close>

record localfs =
  lroot :: "rat node"
  realpath :: "string \<Rightarrow> string"

definition os_lstat :: "localfs \<Rightarrow> path \<Rightarrow> rat stat option" where
  "os_lstat lfs p = map_option lstat_of (lookup (lroot lfs) p)"

definition lexists :: "localfs \<Rightarrow> path \<Rightarrow> bool" where
  "lexists lfs p = (lookup (lroot lfs) p \<noteq> None)"

definition os_listdir :: "localfs \<Rightarrow> path \<Rightarrow> string list option" where
  "os_listdir lfs p =
     (case lookup (lroot lfs) p of Some (Dir m cs) \<Rightarrow> Some (map fst cs) | _ \<Rightarrow> None)"

definition os_readlink :: "localfs \<Rightarrow> path \<Rightarrow> string option" where
  "os_readlink lfs p =
     (case lookup (lroot lfs) p of Some (Lnk m t) \<Rightarrow> Some t | _ \<Rightarrow> None)"

text \<open>\<open>posixpath.join\<close> of two strings, and \<open>os.path.commonprefix\<close>.\<close>

definition startswith :: "string \<Rightarrow> string \<Rightarrow> bool" where
  "startswith s pre = (take (length pre) s = pre)"

definition endswith :: "string \<Rightarrow> string \<Rightarrow> bool" where
  "endswith s suf = (length suf \<le> length s \<and> drop (length s - length suf) s = suf)"

definition join :: "string \<Rightarrow> string \<Rightarrow> string" where
  "join a b =
     (if startswith b ''/'' then b
      else if a = [] \<or> endswith a ''/'' then a @ b
      else a @ ''/'' @ b)"

fun common2 :: "string \<Rightarrow> string \<Rightarrow> string" where
  "common2 (x # xs) (y # ys) = (if x = y then x # common2 xs ys else [])"
| "common2 xs ys = []"

fun commonprefix :: "string list \<Rightarrow> string" where
  "commonprefix [] = []"
| "commonprefix (s # ss) = fold common2 ss s"

section \<open>The remote file system\<close>

text \<open>
  Every I/O failure of the SFTP client is an \<open>IOError\<close> (in Python 3 the same class as
  \<open>OSError\<close>), told apart by its \<open>errno\<close>: \<open>ENOENT\<close> (which is \<open>FileNotFoundError\<close>),
  \<open>EACCES\<close>, \<open>ENOTDIR\<close>, or no \<open>errno\<close> at all (\<open>EFAILURE\<close>).
\<close>

datatype ioerror = ENOENT | EACCES | ENOTDIR | EFAILURE

text \<open>
  The result of a call: it returns, raises an \<open>IOError\<close>, raises \<open>struct.error\<close> (which is
  no \<open>IOError\<close>: no handler of the engine catches it), or exceeds the recursion depth
  granted to it.
\<close>

datatype 'a outcome = Return 'a | Raise ioerror | Struct_error | Exhausted

datatype op =
    Listdir path
  | Lstat path
  | Stat path
  | Mkdir path
  | Rmdir path
  | Remove path
  | Readlink path
  | Symlink string path
  | Chmod path nat
  | Utime path rat rat
  | Chown path nat nat
  | Put path path

text \<open>The remote path a call addresses.\<close>

fun op_path :: "op \<Rightarrow> path" where
  "op_path (Listdir p) = p"
| "op_path (Lstat p) = p"
| "op_path (Stat p) = p"
| "op_path (Mkdir p) = p"
| "op_path (Rmdir p) = p"
| "op_path (Remove p) = p"
| "op_path (Readlink p) = p"
| "op_path (Symlink d p) = p"
| "op_path (Chmod p m) = p"
| "op_path (Utime p a b) = p"
| "op_path (Chown p u g) = p"
| "op_path (Put lp p) = p"

text \<open>
  What the server answers to a call that it serves outside the modelled tree: nothing but
  success, attributes, a listing, or a link target.
\<close>

datatype reply = Done | Attrs "int stat" | Names "(string \<times> int stat) list" | Target string

fun done_of :: "reply \<Rightarrow> unit outcome" where
  "done_of r = Return ()"

fun attrs_of :: "reply \<Rightarrow> int stat outcome" where
  "attrs_of (Attrs st) = Return st"
| "attrs_of r = Raise EFAILURE"

fun names_of :: "reply \<Rightarrow> (string \<times> int stat) list outcome" where
  "names_of (Names l) = Return l"
| "names_of r = Raise EFAILURE"

fun target_of :: "reply \<Rightarrow> string outcome" where
  "target_of (Target t) = Return t"
| "target_of r = Raise EFAILURE"

text \<open>
  The remote side: the tree below the remote root, the calls issued so far, the calls the
  server refuses (\<open>faults\<close>: an injected failure for a call, whatever the tree), the metadata
  the server gives to a node it creates, and three parameters for symbolic links, whose
  targets resolve outside the modelled tree: what \<open>stat\<close> finds behind a link target
  (\<open>resolve\<close>); what a listing reports for an entry that is a link with a given target
  (\<open>listed\<close>: the attributes of what the link leads to where the server's listing follows
  links, \<open>None\<close> where it reports the link itself); and what the server answers to a call
  on a path that leads through a link (\<open>outside\<close>: \<open>None\<close> when nothing is there). The
  root of the tree stands for what the remote root path resolves to.
\<close>

record remote =
  tree :: "int node option"
  log :: "op list"
  faults :: "op \<Rightarrow> ioerror option"
  fresh :: "int meta"
  resolve :: "string \<Rightarrow> int stat option"
  listed :: "string \<Rightarrow> int stat option"
  outside :: "op \<Rightarrow> reply option"

definition call :: "op \<Rightarrow> (remote \<Rightarrow> 'a outcome \<times> int node option) \<Rightarrow> remote \<Rightarrow> 'a outcome \<times> remote" where
  "call c sem s =
     (let s' = s\<lparr>log := log s @ [c]\<rparr> in
      case faults s c of
        Some e \<Rightarrow> (Raise e, s')
      | None \<Rightarrow> (case sem s of (r, t') \<Rightarrow> (r, s'\<lparr>tree := t'\<rparr>)))"

text \<open>
  A path leads through a symbolic link when one of its proper ancestors below the root is
  a link of the tree. A call on such a path is served outside the tree, which it leaves
  as it is.
\<close>

fun through_link :: "'t node \<Rightarrow> path \<Rightarrow> bool" where
  "through_link (Dir m cs) (n # p) =
     (case map_of cs n of
        None \<Rightarrow> False
      | Some (Lnk m' t) \<Rightarrow> p \<noteq> []
      | Some c \<Rightarrow> through_link c p)"
| "through_link t p = False"

definition beyond :: "int node option \<Rightarrow> path \<Rightarrow> bool" where
  "beyond t p = (case t of None \<Rightarrow> False | Some n \<Rightarrow> through_link n p)"

definition answer :: "remote \<Rightarrow> op \<Rightarrow> (reply \<Rightarrow> 'a outcome) \<Rightarrow> 'a outcome" where
  "answer s c f = (case outside s c of None \<Rightarrow> Raise ENOENT | Some r \<Rightarrow> f r)"

definition serve :: "op \<Rightarrow> (reply \<Rightarrow> 'a outcome) \<Rightarrow> (remote \<Rightarrow> 'a outcome \<times> int node option) \<Rightarrow> remote \<Rightarrow> 'a outcome \<times> remote" where
  "serve c f sem =
     call c (\<lambda>s. if beyond (tree s) (op_path c) then (answer s c f, tree s) else sem s)"

definition parent_is_dir :: "int node option \<Rightarrow> path \<Rightarrow> bool" where
  "parent_is_dir t p =
     (p \<noteq> [] \<and> (case rlookup t (butlast p) of Some (Dir m cs) \<Rightarrow> True | _ \<Rightarrow> False))"

text \<open>
  A listing reports each entry with its attributes, those of a link as \<open>listed\<close> has it.
  The listing of a path that is a link below the root is the listing of what the link
  leads to.
\<close>

definition listed_as :: "remote \<Rightarrow> int node \<Rightarrow> int stat" where
  "listed_as s c =
     (case c of
        Lnk m t \<Rightarrow> (case listed s t of None \<Rightarrow> lstat_of c | Some st \<Rightarrow> st)
      | _ \<Rightarrow> lstat_of c)"

definition sftp_listdir_attr :: "path \<Rightarrow> remote \<Rightarrow> (string \<times> int stat) list outcome \<times> remote" where
  "sftp_listdir_attr p =
     serve (Listdir p) names_of (\<lambda>s.
       case rlookup (tree s) p of
         None \<Rightarrow> (Raise ENOENT, tree s)
       | Some (Dir m cs) \<Rightarrow> (Return (map (\<lambda>(n, c). (n, listed_as s c)) cs), tree s)
       | Some (Lnk m t) \<Rightarrow>
           (if p = [] then Raise ENOENT else answer s (Listdir p) names_of, tree s)
       | Some _ \<Rightarrow> (Raise ENOENT, tree s))"

definition sftp_lstat :: "path \<Rightarrow> remote \<Rightarrow> int stat outcome \<times> remote" where
  "sftp_lstat p =
     serve (Lstat p) attrs_of (\<lambda>s.
       case rlookup (tree s) p of
         None \<Rightarrow> (Raise ENOENT, tree s)
       | Some n \<Rightarrow> (Return (lstat_of n), tree s))"

definition sftp_stat :: "path \<Rightarrow> remote \<Rightarrow> int stat outcome \<times> remote" where
  "sftp_stat p =
     serve (Stat p) attrs_of (\<lambda>s.
       case rlookup (tree s) p of
         None \<Rightarrow> (Raise ENOENT, tree s)
       | Some (Lnk m t) \<Rightarrow>
           (case resolve s t of None \<Rightarrow> (Raise ENOENT, tree s) | Some st \<Rightarrow> (Return st, tree s))
       | Some n \<Rightarrow> (Return (lstat_of n), tree s))"

definition sftp_mkdir :: "path \<Rightarrow> remote \<Rightarrow> unit outcome \<times> remote" where
  "sftp_mkdir p =
     serve (Mkdir p) done_of (\<lambda>s.
       if \<not> parent_is_dir (tree s) p then (Raise ENOENT, tree s)
       else if rlookup (tree s) p \<noteq> None then (Raise EFAILURE, tree s)
       else (Return (), ralter p (\<lambda>_. Some (Dir (fresh s) [])) (tree s)))"

definition sftp_rmdir :: "path \<Rightarrow> remote \<Rightarrow> unit outcome \<times> remote" where
  "sftp_rmdir p =
     serve (Rmdir p) done_of (\<lambda>s.
       case rlookup (tree s) p of
         None \<Rightarrow> (Raise ENOENT, tree s)
       | Some (Dir m []) \<Rightarrow> (Return (), ralter p (\<lambda>_. None) (tree s))
       | Some (Dir m cs) \<Rightarrow> (Raise EFAILURE, tree s)
       | Some _ \<Rightarrow> (Raise ENOENT, tree s))"

definition sftp_remove :: "path \<Rightarrow> remote \<Rightarrow> unit outcome \<times> remote" where
  "sftp_remove p =
     serve (Remove p) done_of (\<lambda>s.
       case rlookup (tree s) p of
         None \<Rightarrow> (Raise ENOENT, tree s)
       | Some (Dir m cs) \<Rightarrow> (Raise EFAILURE, tree s)
       | Some _ \<Rightarrow> (Return (), ralter p (\<lambda>_. None) (tree s)))"

definition sftp_readlink :: "path \<Rightarrow> remote \<Rightarrow> string outcome \<times> remote" where
  "sftp_readlink p =
     serve (Readlink p) target_of (\<lambda>s.
       case rlookup (tree s) p of
         None \<Rightarrow> (Raise ENOENT, tree s)
       | Some (Lnk m t) \<Rightarrow> (Return t, tree s)
       | Some _ \<Rightarrow> (Raise EFAILURE, tree s))"

definition sftp_symlink :: "string \<Rightarrow> path \<Rightarrow> remote \<Rightarrow> unit outcome \<times> remote" where
  "sftp_symlink dest p =
     serve (Symlink dest p) done_of (\<lambda>s.
       if \<not> parent_is_dir (tree s) p then (Raise ENOENT, tree s)
       else if rlookup (tree s) p \<noteq> None then (Raise EFAILURE, tree s)
       else (Return (), ralter p (\<lambda>_. Some (Lnk (fresh s) dest)) (tree s)))"

text \<open>
  The attribute calls change a node in place. On a symbolic link they act on its target,
  which is outside the modelled tree.
\<close>

definition set_attr :: "path \<Rightarrow> (int meta \<Rightarrow> int meta) \<Rightarrow> remote \<Rightarrow> unit outcome \<times> int node option" where
  "set_attr p g s =
     (case rlookup (tree s) p of
        None \<Rightarrow> (Raise ENOENT, tree s)
      | Some (Lnk m t) \<Rightarrow>
          (case resolve s t of None \<Rightarrow> (Raise ENOENT, tree s) | Some st \<Rightarrow> (Return (), tree s))
      | Some n \<Rightarrow> (Return (), ralter p (map_option (\<lambda>n. set_meta (g (node_meta n)) n)) (tree s)))"

definition sftp_chmod :: "path \<Rightarrow> nat \<Rightarrow> remote \<Rightarrow> unit outcome \<times> remote" where
  "sftp_chmod p m = serve (Chmod p m) done_of (set_attr p (\<lambda>a. a\<lparr>m_perm := m\<rparr>))"

text \<open>
  The client sends the two times of \<open>utime\<close> as whole seconds in unsigned 32-bit fields:
  for a time that does not fit (a negative one, or one from the year 2106 on), packing the
  request raises \<open>struct.error\<close> and nothing is sent. The permission bits of \<open>chmod\<close> and
  the owner ids of \<open>chown\<close>, taken from a local stat result, always fit.
\<close>

definition packs :: "int \<Rightarrow> bool" where
  "packs n \<longleftrightarrow> 0 \<le> n \<and> n < 2 ^ 32"

definition sftp_utime :: "path \<Rightarrow> rat \<times> rat \<Rightarrow> remote \<Rightarrow> unit outcome \<times> remote" where
  "sftp_utime p tm s =
     (if packs (py_int (fst tm)) \<and> packs (py_int (snd tm)) then
        serve (Utime p (fst tm) (snd tm)) done_of
          (set_attr p (\<lambda>a. a\<lparr>m_atime := py_int (fst tm), m_mtime := py_int (snd tm)\<rparr>)) s
      else (Struct_error, s))"

definition sftp_chown :: "path \<Rightarrow> nat \<Rightarrow> nat \<Rightarrow> remote \<Rightarrow> unit outcome \<times> remote" where
  "sftp_chown p u g = serve (Chown p u g) done_of (set_attr p (\<lambda>a. a\<lparr>m_uid := u, m_gid := g\<rparr>))"

text \<open>
  \<open>put\<close> copies the local file: afterwards the remote file has the local size. A new file
  gets the server's fresh metadata, an existing one keeps its permissions and owner and gets
  the server's current time.
\<close>

definition sftp_put :: "localfs \<Rightarrow> path \<Rightarrow> path \<Rightarrow> remote \<Rightarrow> unit outcome \<times> remote" where
  "sftp_put lfs lp p =
     serve (Put lp p) done_of (\<lambda>s.
       case os_lstat lfs lp of
         None \<Rightarrow> (Raise ENOENT, tree s)
       | Some l_st \<Rightarrow>
          (case rlookup (tree s) p of
             None \<Rightarrow>
               if parent_is_dir (tree s) p
               then (Return (), ralter p (\<lambda>_. Some (Reg ((fresh s)\<lparr>m_size := st_size l_st\<rparr>))) (tree s))
               else (Raise ENOENT, tree s)
           | Some (Reg m) \<Rightarrow>
               (Return (),
                ralter p (\<lambda>_. Some (Reg (m\<lparr>m_size := st_size l_st,
                                           m_atime := m_atime (fresh s),
                                           m_mtime := m_mtime (fresh s)\<rparr>))) (tree s))
           | Some (Lnk m t) \<Rightarrow>
               (case resolve s t of None \<Rightarrow> (Raise ENOENT, tree s) | Some st \<Rightarrow> (Return (), tree s))
           | Some _ \<Rightarrow> (Raise EFAILURE, tree s)))"

section \<open>The engine\<close>

text \<open>
  The fields of \<open>SFTPClone\<close> the two passes read. The exclusion set holds paths of the
  local tree, as component lists below the local root.
\<close>

record sftpclone =
  local_path :: string
  remote_path :: string
  exclude_list :: "path set"
  fix_symlinks :: bool
  chown :: bool

text \<open>A \<open>for\<close> loop over a list: it stops at the first iteration that does not return.\<close>

fun for_each :: "('a \<Rightarrow> remote \<Rightarrow> unit outcome \<times> remote) \<Rightarrow> 'a list \<Rightarrow> remote \<Rightarrow> unit outcome \<times> remote" where
  "for_each body [] s = (Return (), s)"
| "for_each body (x # xs) s =
     (case body x s of
        (Return u, s') \<Rightarrow> for_each body xs s'
      | r \<Rightarrow> r)"

definition file_need_upload :: "rat stat \<Rightarrow> int stat \<Rightarrow> bool" where
  "file_need_upload l_st r_st =
     (if st_size l_st \<noteq> st_size r_st \<or> py_int (st_mtime l_st) \<noteq> st_mtime r_st
      then True else False)"

definition match_modes :: "sftpclone \<Rightarrow> path \<Rightarrow> rat stat \<Rightarrow> remote \<Rightarrow> unit outcome \<times> remote" where
  "match_modes self remote_p l_st s =
     (case sftp_chmod remote_p (S_IMODE (st_mode l_st)) s of
        (Return u, s1) \<Rightarrow>
          (case sftp_utime remote_p (st_atime l_st, st_mtime l_st) s1 of
             (Return u, s2) \<Rightarrow>
               if chown self then sftp_chown remote_p (st_uid l_st) (st_gid l_st) s2
               else (Return (), s2)
           | r \<Rightarrow> r)
      | r \<Rightarrow> r)"

definition file_upload :: "sftpclone \<Rightarrow> localfs \<Rightarrow> path \<Rightarrow> path \<Rightarrow> rat stat \<Rightarrow> remote \<Rightarrow> unit outcome \<times> remote" where
  "file_upload self lfs local_p remote_p l_st s =
     (case sftp_put lfs local_p remote_p s of
        (Return u, s1) \<Rightarrow> match_modes self remote_p l_st s1
      | r \<Rightarrow> r)"

definition must_be_deleted :: "localfs \<Rightarrow> path \<Rightarrow> int stat \<Rightarrow> bool" where
  "must_be_deleted lfs local_p r_st =
     (if \<not> lexists lfs local_p then True
      else (case os_lstat lfs local_p of
              None \<Rightarrow> True
            | Some l_st \<Rightarrow>
                if S_IFMT (st_mode r_st) \<noteq> S_IFMT (st_mode l_st) then True else False))"

fun remote_delete :: "nat \<Rightarrow> path \<Rightarrow> int stat \<Rightarrow> remote \<Rightarrow> unit outcome \<times> remote" where
  "remote_delete 0 remote_p r_st s = (Exhausted, s)"
| "remote_delete (Suc depth) remote_p r_st s =
     (if S_ISDIR (st_mode r_st) then
        (case sftp_listdir_attr remote_p s of
           (Return items, s1) \<Rightarrow>
             (case for_each (\<lambda>(filename, item). remote_delete depth (remote_p @ [filename]) item)
                     items s1 of
                (Return u, s2) \<Rightarrow> sftp_rmdir remote_p s2
              | r \<Rightarrow> r)
         | (Raise e, s1) \<Rightarrow> (Raise e, s1)
         | (Struct_error, s1) \<Rightarrow> (Struct_error, s1)
         | (Exhausted, s1) \<Rightarrow> (Exhausted, s1))
      else
        (case sftp_remove remote_p s of
           (Raise ENOENT, s1) \<Rightarrow> (Return (), s1)
         | r \<Rightarrow> r))"

text \<open>
  \<open>check_for_deletion_entry\<close> is the body of the loop of \<open>check_for_deletion\<close>, for one
  entry \<open>remote_st\<close> of the listing.
\<close>

fun check_for_deletion :: "nat \<Rightarrow> sftpclone \<Rightarrow> localfs \<Rightarrow> path \<Rightarrow> remote \<Rightarrow> unit outcome \<times> remote"
  and check_for_deletion_entry :: "nat \<Rightarrow> sftpclone \<Rightarrow> localfs \<Rightarrow> path \<Rightarrow> string \<times> int stat \<Rightarrow> remote \<Rightarrow> unit outcome \<times> remote"
where
  "check_for_deletion 0 self lfs relative_path s = (Exhausted, s)"
| "check_for_deletion (Suc depth) self lfs relative_path s =
     (case sftp_listdir_attr relative_path s of
        (Return entries, s0) \<Rightarrow>
          for_each (check_for_deletion_entry depth self lfs relative_path) entries s0
      | (Raise e, s0) \<Rightarrow> (Raise e, s0)
      | (Struct_error, s0) \<Rightarrow> (Struct_error, s0)
      | (Exhausted, s0) \<Rightarrow> (Exhausted, s0))"
| "check_for_deletion_entry depth self lfs relative_path (filename, remote_st) s =
     (case sftp_lstat (relative_path @ [filename]) s of
        (Return r_lstat, s1) \<Rightarrow>
          if S_ISLNK (st_mode r_lstat) then
            (if must_be_deleted lfs (relative_path @ [filename]) r_lstat
             then remote_delete depth (relative_path @ [filename]) r_lstat s1
             else (Return (), s1))
          else if must_be_deleted lfs (relative_path @ [filename]) remote_st
            then remote_delete depth (relative_path @ [filename]) remote_st s1
          else if S_ISDIR (st_mode remote_st)
            then check_for_deletion depth self lfs (relative_path @ [filename]) s1
          else (Return (), s1)
      | (Raise e, s1) \<Rightarrow> (Raise e, s1)
      | (Struct_error, s1) \<Rightarrow> (Struct_error, s1)
      | (Exhausted, s1) \<Rightarrow> (Exhausted, s1))"

definition create_update_symlink :: "string \<Rightarrow> path \<Rightarrow> remote \<Rightarrow> unit outcome \<times> remote" where
  "create_update_symlink link_destination remote_p s =
     (let attempt =
        (case sftp_readlink remote_p s of
           (Return remote_link, s1) \<Rightarrow>
             if link_destination \<noteq> remote_link then
               (case sftp_remove remote_p s1 of
                  (Return u, s2) \<Rightarrow> sftp_symlink link_destination remote_p s2
                | r \<Rightarrow> r)
             else (Return (), s1)
         | (Raise e, s1) \<Rightarrow> (Raise e, s1)
         | (Struct_error, s1) \<Rightarrow> (Struct_error, s1)
         | (Exhausted, s1) \<Rightarrow> (Exhausted, s1))
      in case attempt of
           (Raise e, s3) \<Rightarrow>
             (case sftp_symlink link_destination remote_p s3 of
                (Raise e', s4) \<Rightarrow> (Return (), s4)
              | r \<Rightarrow> r)
         | r \<Rightarrow> r)"

fun check_for_upload_create :: "nat \<Rightarrow> sftpclone \<Rightarrow> localfs \<Rightarrow> path \<Rightarrow> remote \<Rightarrow> unit outcome \<times> remote"
  and node_check_for_upload_create :: "nat \<Rightarrow> sftpclone \<Rightarrow> localfs \<Rightarrow> path \<Rightarrow> string \<Rightarrow> remote \<Rightarrow> unit outcome \<times> remote"
where
  "check_for_upload_create 0 self lfs relative_path s = (Exhausted, s)"
| "check_for_upload_create (Suc depth) self lfs relative_path s =
     (case os_listdir lfs relative_path of
        None \<Rightarrow> (Raise ENOTDIR, s)
      | Some names \<Rightarrow>
          for_each (\<lambda>f. node_check_for_upload_create depth self lfs relative_path f) names s)"
| "node_check_for_upload_create depth self lfs relative_path f s =
     (case os_lstat lfs (relative_path @ [f]) of
        None \<Rightarrow> (Raise ENOENT, s)
      | Some l_st \<Rightarrow>
          if relative_path @ [f] \<in> exclude_list self then (Return (), s)
          else if S_ISDIR (st_mode l_st) then
            (case (case sftp_stat (relative_path @ [f]) s of
                     (Raise e, s1) \<Rightarrow> sftp_mkdir (relative_path @ [f]) s1
                   | (Return r_st, s1) \<Rightarrow> (Return (), s1)
                   | (Struct_error, s1) \<Rightarrow> (Struct_error, s1)
                   | (Exhausted, s1) \<Rightarrow> (Exhausted, s1)) of
               (Return u, s2) \<Rightarrow>
                 (case match_modes self (relative_path @ [f]) l_st s2 of
                    (Return u, s3) \<Rightarrow>
                      check_for_upload_create depth self lfs (relative_path @ [f]) s3
                  | r \<Rightarrow> r)
             | r \<Rightarrow> r)
          else if S_ISLNK (st_mode l_st) then
            (case os_readlink lfs (relative_path @ [f]) of
               None \<Rightarrow> (Raise ENOENT, s)
             | Some local_link \<Rightarrow>
                 (let absolute_local_link = realpath lfs local_link;
                      is_absolute = startswith local_link ''/'';
                      trailing_local_path = join (local_path self) '''';
                      relpath = (commonprefix [absolute_local_link, trailing_local_path]
                                   = trailing_local_path);
                      relative_link = (if relpath
                                       then Some (drop (length trailing_local_path) absolute_local_link)
                                       else None)
                  in if is_absolute \<and> relpath then
                       (if fix_symlinks self then
                          (case relative_link of
                             None \<Rightarrow> (Raise EFAILURE, s)
                           | Some rl \<Rightarrow>
                               create_update_symlink (join (remote_path self) rl)
                                 (relative_path @ [f]) s)
                        else (Return (), s))
                     else create_update_symlink local_link (relative_path @ [f]) s))
          else if S_ISREG (st_mode l_st) then
            (let handler = (\<lambda>e s'.
                  if e = ENOENT
                  then file_upload self lfs (relative_path @ [f]) (relative_path @ [f]) l_st s'
                  else (Return (), s'))
             in case sftp_lstat (relative_path @ [f]) s of
                  (Return r_st, s1) \<Rightarrow>
                    if file_need_upload l_st r_st then
                      (case file_upload self lfs (relative_path @ [f]) (relative_path @ [f]) l_st s1 of
                         (Raise e, s2) \<Rightarrow> handler e s2
                       | r \<Rightarrow> r)
                    else (Return (), s1)
                | (Raise e, s1) \<Rightarrow> handler e s1
                | (Struct_error, s1) \<Rightarrow> (Struct_error, s1)
                | (Exhausted, s1) \<Rightarrow> (Exhausted, s1))
          else (Return (), s))"

declare node_check_for_upload_create.simps [simp del]

definition run :: "nat \<Rightarrow> sftpclone \<Rightarrow> localfs \<Rightarrow> remote \<Rightarrow> unit outcome \<times> remote" where
  "run depth self lfs s =
     (case check_for_deletion depth self lfs [] s of
        (Return u, s1) \<Rightarrow> check_for_upload_create depth self lfs [] s1
      | r \<Rightarrow> r)"

section \<open>Traces and observations\<close>

text \<open>The calls issued between two states of the remote side.\<close>

definition ops_since :: "remote \<Rightarrow> remote \<Rightarrow> op list" where
  "ops_since s s' = drop (length (log s)) (log s')"

text \<open>Calls that only read the remote tree.\<close>

fun is_read :: "op \<Rightarrow> bool" where
  "is_read (Listdir p) = True"
| "is_read (Lstat p) = True"
| "is_read (Stat p) = True"
| "is_read (Readlink p) = True"
| "is_read c = False"

text \<open>
  Uploads, creations and deletions: the calls that change which nodes exist or what a
  file holds.
\<close>

fun is_write :: "op \<Rightarrow> bool" where
  "is_write (Mkdir p) = True"
| "is_write (Rmdir p) = True"
| "is_write (Remove p) = True"
| "is_write (Symlink d p) = True"
| "is_write (Put lp p) = True"
| "is_write c = False"

text \<open>
  What the engine can observe of a remote node by \<open>lstat\<close> and \<open>readlink\<close> and compares:
  its kind, for a link its target, for a regular file its size and modification time.
\<close>

datatype core = CDir | CLnk string | CReg nat int | CSpecial special

fun core_of :: "int node \<Rightarrow> core" where
  "core_of (Dir m cs) = CDir"
| "core_of (Lnk m t) = CLnk t"
| "core_of (Reg m) = CReg (m_size m) (m_mtime m)"
| "core_of (Special k m) = CSpecial k"

fun core_type :: "core \<Rightarrow> ftype" where
  "core_type CDir = S_IFDIR"
| "core_type (CLnk t) = S_IFLNK"
| "core_type (CReg sz mt) = S_IFREG"
| "core_type (CSpecial k) = S_IFSPECIAL k"

definition obs :: "int node option \<Rightarrow> path \<Rightarrow> core option" where
  "obs t q = map_option core_of (rlookup t q)"

text \<open>
  The recursion depth that deleting a node takes: one call for the node, and for a
  directory the deepest of its entries on top.
\<close>

fun height :: "'t node \<Rightarrow> nat" where
  "height (Dir m cs) = Suc (fold max (map (\<lambda>nc. height (snd nc)) cs) 0)"
| "height n = Suc 0"

text \<open>A well-formed tree has no two entries of one name in a directory.\<close>

fun wf_node :: "'t node \<Rightarrow> bool" where
  "wf_node (Dir m cs) = (distinct (map fst cs) \<and> list_all (\<lambda>nc. wf_node (snd nc)) cs)"
| "wf_node n = True"

definition wf_tree :: "'t node option \<Rightarrow> bool" where
  "wf_tree t = (case t of None \<Rightarrow> True | Some n \<Rightarrow> wf_node n)"

text \<open>
  The calls of a recursive deletion in post-order: a directory is listed, each entry is
  deleted in listing order, and the directory is removed last; any other node is removed
  by one call.
\<close>

fun postorder :: "path \<Rightarrow> 't node \<Rightarrow> op list" where
  "postorder p (Dir m cs) =
     Listdir p # concat (map (\<lambda>nc. postorder (p @ [fst nc]) (snd nc)) cs) @ [Rmdir p]"
| "postorder p n = [Remove p]"

text \<open>
  In a list of calls, no call at or below a directory follows the \<open>rmdir\<close> of that
  directory.
\<close>

fun rmdir_last :: "op list \<Rightarrow> bool" where
  "rmdir_last [] = True"
| "rmdir_last (c # cs) =
     ((case c of Rmdir q \<Rightarrow> list_all (\<lambda>c'. \<not> prefix q (op_path c')) cs | _ \<Rightarrow> True)
      \<and> rmdir_last cs)"

text \<open>
  \<open>extends P s s'\<close>: from \<open>s\<close> to \<open>s'\<close> the server behaves the same, the log has grown by
  calls that all satisfy \<open>P\<close>, what can be observed at a path is the same unless the path
  is at or below the path of a non-reading call that \<open>P\<close> admits, and a well-formed tree is
  still well-formed.
\<close>

definition extends :: "(op \<Rightarrow> bool) \<Rightarrow> remote \<Rightarrow> remote \<Rightarrow> bool" where
  "extends P s s' \<longleftrightarrow>
     faults s' = faults s \<and> fresh s' = fresh s \<and> resolve s' = resolve s \<and>
     listed s' = listed s \<and> outside s' = outside s \<and>
     (\<exists>tr. log s' = log s @ tr \<and> (\<forall>c\<in>set tr. P c)) \<and>
     (\<forall>q. (\<forall>c. P c \<and> \<not> is_read c \<longrightarrow> \<not> prefix (op_path c) q) \<longrightarrow> obs (tree s') q = obs (tree s) q) \<and>
     (wf_tree (tree s) \<longrightarrow> wf_tree (tree s'))"

text \<open>
  The listing reports no symbolic link as a directory: it reports links themselves, or no
  link of the tree leads to a directory.
\<close>

definition no_link_as_dir :: "remote \<Rightarrow> bool" where
  "no_link_as_dir s \<longleftrightarrow> (\<forall>t st. listed s t = Some st \<longrightarrow> \<not> S_ISDIR (st_mode st))"

text \<open>
  A change of the tree that is local to the path \<open>p\<close>: observations elsewhere and
  well-formedness are kept.
\<close>

definition local_change :: "path \<Rightarrow> int node option \<Rightarrow> int node option \<Rightarrow> bool" where
  "local_change p t t' \<longleftrightarrow>
     (\<forall>q. \<not> prefix p q \<longrightarrow> obs t' q = obs t q) \<and> (wf_tree t \<longrightarrow> wf_tree t')"

text \<open>
  A path \<open>q\<close> strictly below \<open>rel\<close> is visible from \<open>rel\<close> when no path from just below
  \<open>rel\<close> down to \<open>q\<close> is excluded.
\<close>

definition visible :: "sftpclone \<Rightarrow> path \<Rightarrow> path \<Rightarrow> bool" where
  "visible self rel q \<longleftrightarrow>
     strict_prefix rel q \<and> (\<forall>q'. strict_prefix rel q' \<and> prefix q' q \<longrightarrow> q' \<notin> exclude_list self)"

definition is_dir :: "'t node option \<Rightarrow> bool" where
  "is_dir x = (case x of Some (Dir m cs) \<Rightarrow> True | _ \<Rightarrow> False)"


definition lmeta :: "nat \<Rightarrow> rat \<Rightarrow> rat meta" where
  "lmeta sz t = \<lparr>m_perm = 420, m_size = sz, m_atime = t, m_mtime = t, m_uid = 1000, m_gid = 1000\<rparr>"

definition rmeta :: "nat \<Rightarrow> int \<Rightarrow> int meta" where
  "rmeta sz t = \<lparr>m_perm = 420, m_size = sz, m_atime = t, m_mtime = t, m_uid = 33, m_gid = 33\<rparr>"

definition ex_realpath :: "string \<Rightarrow> string" where
  "ex_realpath p = (if p = ''../sibling'' then ''/home/sibling'' else p)"

definition ex_local :: localfs where
  "ex_local =
     \<lparr>lroot = Dir (lmeta 0 0)
        [(''f'', Reg (lmeta 100 1000)),
         (''in'', Lnk (lmeta 0 0) ''/a/b/c''),
         (''out'', Lnk (lmeta 0 0) ''/outside/x''),
         (''up'', Lnk (lmeta 0 0) ''../sibling''),
         (''x'', Reg (lmeta 5 20))],
      realpath = ex_realpath\<rparr>"

definition ex_self :: "bool \<Rightarrow> sftpclone" where
  "ex_self fix =
     \<lparr>local_path = ''/a'', remote_path = ''/r'', exclude_list = {[''x'']},
      fix_symlinks = fix, chown = False\<rparr>"

definition ex_remote :: remote where
  "ex_remote =
     \<lparr>tree = Some (Dir (rmeta 0 0)
        [(''f'', Reg (rmeta 100 1000)),
         (''up'', Lnk (rmeta 0 0) ''elsewhere''),
         (''x'', Dir (rmeta 0 0) [(''y'', Reg (rmeta 1 1))])]),
      log = [], faults = (\<lambda>c. None), fresh = rmeta 0 50, resolve = (\<lambda>t. None),
      listed = (\<lambda>t. None), outside = (\<lambda>c. None)\<rparr>"

text \<open>
  What it means that the link target \<open>target\<close> is written at the remote path \<open>p\<close>: no call
  other than reading the link, removing it and creating it with that target is issued, and
  when the server refuses nothing and a link can exist at \<open>p\<close> (its parent is a directory
  and \<open>p\<close> is free or holds a link), then afterwards \<open>p\<close> holds a link with that target.
\<close>

definition symlink_written :: "string \<Rightarrow> path \<Rightarrow> remote \<Rightarrow> remote \<Rightarrow> bool" where
  "symlink_written target p s s' \<longleftrightarrow>
     (\<forall>c\<in>set (ops_since s s'). c \<in> {Readlink p, Remove p, Symlink target p}) \<and>
     (faults s = (\<lambda>c. None) \<and> parent_is_dir (tree s) p \<and>
      (case rlookup (tree s) p of None \<Rightarrow> True | Some (Lnk m t) \<Rightarrow> True | Some _ \<Rightarrow> False)
        \<longrightarrow> (\<exists>m. rlookup (tree s') p = Some (Lnk m target)))"

definition ex_local_f :: localfs where
  "ex_local_f = \<lparr>lroot = Dir (lmeta 0 0) [(''f'', Reg (lmeta 100 1000))], realpath = ex_realpath\<rparr>"

definition ex_remote_denied :: remote where
  "ex_remote_denied =
     \<lparr>tree = Some (Dir (rmeta 0 0) []), log = [],
      faults = (\<lambda>c. if c = Lstat [''f''] then Some EACCES else None),
      fresh = rmeta 0 50, resolve = (\<lambda>t. None),
      listed = (\<lambda>t. None), outside = (\<lambda>c. None)\<rparr>"

definition ex_remote_missing :: remote where
  "ex_remote_missing =
     \<lparr>tree = None, log = [], faults = (\<lambda>c. None), fresh = rmeta 0 50, resolve = (\<lambda>t. None),
      listed = (\<lambda>t. None), outside = (\<lambda>c. None)\<rparr>"

definition ex_local_x :: localfs where
  "ex_local_x = \<lparr>lroot = Dir (lmeta 0 0) [(''x'', Reg (lmeta 5 20))], realpath = ex_realpath\<rparr>"

definition ex_remote_x :: remote where
  "ex_remote_x =
     \<lparr>tree = Some (Dir (rmeta 0 0) [(''x'', Dir (rmeta 0 0) [(''y'', Reg (rmeta 1 1))])]),
      log = [], faults = (\<lambda>c. None), fresh = rmeta 0 50, resolve = (\<lambda>t. None),
      listed = (\<lambda>t. None), outside = (\<lambda>c. None)\<rparr>"

text \<open>
  A server whose listing follows symbolic links: the remote directory \<open>d\<close>, which has no
  local counterpart, holds the link \<open>l\<close> to a directory outside the tree, which holds the
  file \<open>x\<close>.
\<close>

definition ex_remote_link :: remote where
  "ex_remote_link =
     \<lparr>tree = Some (Dir (rmeta 0 0)
        [(''f'', Reg (rmeta 100 1000)),
         (''d'', Dir (rmeta 0 0) [(''l'', Lnk (rmeta 0 0) ''/srv/other'')])]),
      log = [], faults = (\<lambda>c. None), fresh = rmeta 0 50,
      resolve = (\<lambda>t. if t = ''/srv/other'' then Some (lstat_of (Dir (rmeta 0 0) [])) else None),
      listed = (\<lambda>t. if t = ''/srv/other'' then Some (lstat_of (Dir (rmeta 0 0) [])) else None),
      outside = (\<lambda>c. if c = Listdir [''d'', ''l''] then Some (Names [(''x'', lstat_of (Reg (rmeta 3 3)))])
                     else if c = Remove [''d'', ''l'', ''x''] then Some Done
                     else None)\<rparr>"

text \<open>
  A server that refuses the \<open>chmod\<close> of the file \<open>f\<close>, which exists remotely with another
  size than locally.
\<close>

definition ex_remote_locked :: remote where
  "ex_remote_locked =
     \<lparr>tree = Some (Dir (rmeta 0 0) [(''f'', Reg (rmeta 7 1000))]), log = [],
      faults = (\<lambda>c. if c = Chmod [''f''] 420 then Some EACCES else None),
      fresh = rmeta 0 50, resolve = (\<lambda>t. None),
      listed = (\<lambda>t. None), outside = (\<lambda>c. None)\<rparr>"

text \<open>
  The four-way classification of the specification's data model (directory, symlink,
  regular, other), for comparison with the file-format field that the code compares.
\<close>

datatype spec_type = Directory | Symlink_type | Regular | Other

fun spec_node_type :: "ftype \<Rightarrow> spec_type" where
  "spec_node_type S_IFDIR = Directory"
| "spec_node_type S_IFLNK = Symlink_type"
| "spec_node_type S_IFREG = Regular"
| "spec_node_type (S_IFSPECIAL k) = Other"

definition ex_local_fifo :: localfs where
  "ex_local_fifo = \<lparr>lroot = Dir (lmeta 0 0) [(''p'', Special S_IFIFO (lmeta 0 0))], realpath = ex_realpath\<rparr>"

definition ex_remote_sock :: remote where
  "ex_remote_sock =
     \<lparr>tree = Some (Dir (rmeta 0 0) [(''p'', Special S_IFSOCK (rmeta 0 0))]),
      log = [], faults = (\<lambda>c. None), fresh = rmeta 0 50, resolve = (\<lambda>t. None),
      listed = (\<lambda>t. None), outside = (\<lambda>c. None)\<rparr>"

text \<open>
  The decision table of the symlink resolver: the link target to write remotely for a
  local link with raw target \<open>local_link\<close>, or \<open>None\<close> when nothing is written.
\<close>

definition link_target :: "sftpclone \<Rightarrow> localfs \<Rightarrow> string \<Rightarrow> string option" where
  "link_target self lfs local_link =
     (let trailing = join (local_path self) '''';
          inside = prefix trailing (realpath lfs local_link)
      in if startswith local_link ''/'' \<and> inside
         then (if fix_symlinks self
               then Some (join (remote_path self) (drop (length trailing) (realpath lfs local_link)))
               else None)
         else Some local_link)"

text \<open>
  What is observed remotely at a path has a local counterpart of the same type; and what
  is observed remotely at a path is what the creation pass leaves there for the local node.
\<close>

definition matches :: "localfs \<Rightarrow> path \<Rightarrow> core option \<Rightarrow> bool" where
  "matches lfs q x =
     (case x of
        None \<Rightarrow> True
      | Some c \<Rightarrow> (case lookup (lroot lfs) q of None \<Rightarrow> False | Some l \<Rightarrow> node_type l = core_type c))"

definition uptodate :: "sftpclone \<Rightarrow> localfs \<Rightarrow> path \<Rightarrow> core option \<Rightarrow> bool" where
  "uptodate self lfs q x =
     (case lookup (lroot lfs) q of
        None \<Rightarrow> True
      | Some (Dir m cs) \<Rightarrow> x = Some CDir
      | Some (Lnk m t) \<Rightarrow> (case link_target self lfs t of None \<Rightarrow> True | Some d \<Rightarrow> x = Some (CLnk d))
      | Some (Reg m) \<Rightarrow> x = Some (CReg (m_size m) (py_int (m_mtime m)))
      | Some (Special k m) \<Rightarrow> True)"

definition synced :: "sftpclone \<Rightarrow> localfs \<Rightarrow> int node option \<Rightarrow> bool" where
  "synced self lfs t \<longleftrightarrow>
     wf_tree t \<and> (\<forall>q. q \<noteq> [] \<longrightarrow> matches lfs q (obs t q)) \<and>
     (\<forall>q. visible self [] q \<longrightarrow> uptodate self lfs q (obs t q))"

text \<open>
  What the deletion pass leaves of a remote node: in a directory, the entries that must
  be deleted are gone and the others are pruned in turn.
\<close>

fun prune :: "localfs \<Rightarrow> path \<Rightarrow> int node \<Rightarrow> int node" where
  "prune lfs p (Dir m cs) =
     Dir m (map (\<lambda>nc. (fst nc, prune lfs (p @ [fst nc]) (snd nc)))
              (filter (\<lambda>nc. \<not> must_be_deleted lfs (p @ [fst nc]) (lstat_of (snd nc))) cs))"
| "prune lfs p n = n"

definition prune_entries :: "localfs \<Rightarrow> path \<Rightarrow> (string \<times> int node) list \<Rightarrow> (string \<times> int node) list" where
  "prune_entries lfs p cs =
     map (\<lambda>nc. (fst nc, prune lfs (p @ [fst nc]) (snd nc)))
       (filter (\<lambda>nc. \<not> must_be_deleted lfs (p @ [fst nc]) (lstat_of (snd nc))) cs)"

text \<open>
  The state of the remote side between the two passes of a run on a server that refuses
  nothing: the tree is well-formed and holds no entry without a local counterpart of its
  type.
\<close>

definition pruned :: "localfs \<Rightarrow> remote \<Rightarrow> bool" where
  "pruned lfs s \<longleftrightarrow>
     faults s = (\<lambda>c. None) \<and> wf_tree (tree s) \<and> (\<forall>q. q \<noteq> [] \<longrightarrow> matches lfs q (obs (tree s) q))"

section \<open>Trees: lookup after alter\<close>

lemma lookup_append: "lookup t (p @ q) = (case lookup t p of None \<Rightarrow> None | Some c \<Rightarrow> lookup c q)"
  by (induction p arbitrary: t) (auto split: node.splits option.splits)

lemma lookup_snoc:
  "lookup t (p @ [n]) = (case lookup t p of Some (Dir m cs) \<Rightarrow> map_of cs n | _ \<Rightarrow> None)"
  by (simp add: lookup_append split: option.splits node.splits)

lemma delete_absent: "map_of cs n = None \<Longrightarrow> AList.delete n cs = cs"
  by (induction cs) auto

lemma alter_cons:
  "alter (n # p) f (Dir m cs) =
     (if p = [] then (case f (map_of cs n) of None \<Rightarrow> Dir m (AList.delete n cs) | Some c \<Rightarrow> Dir m (AList.update n c cs))
      else (case map_of cs n of None \<Rightarrow> Dir m cs | Some c \<Rightarrow> Dir m (AList.update n (alter p f c) cs)))"
  by (cases p) auto

lemma alter_not_dir: "(\<And>m cs. t \<noteq> Dir m cs) \<Longrightarrow> alter p f t = t"
  by (induction p f t rule: alter.induct) (auto split: node.splits)

text \<open>alter as a one-level alter of the first component\<close>
lemma alter_cons_map:
  "p \<noteq> [] \<Longrightarrow> alter (n # p) f t = alter [n] (map_option (alter p f)) t"
  by (cases t; cases p) (auto simp: delete_absent split: option.splits)

lemma alter_append:
  "p \<noteq> [] \<Longrightarrow> q \<noteq> [] \<Longrightarrow> alter (p @ q) f t = alter p (map_option (alter q f)) t"
proof (induction p arbitrary: t)
  case Nil
  then show ?case by simp
next
  case (Cons n p)
  show ?case
  proof (cases "p = []")
    case True
    with Cons.prems show ?thesis by (simp add: alter_cons_map)
  next
    case False
    then have "alter ((n # p) @ q) f t = alter [n] (map_option (alter (p @ q) f)) t"
      by (simp add: alter_cons_map)
    also have "map_option (alter (p @ q) f) = map_option (alter p (map_option (alter q f)))"
      using Cons.IH[OF False Cons.prems(2)] by (intro ext) (simp add: option.map_comp comp_def cong: option.map_cong)
    also have "alter [n] \<dots> t = alter (n # p) (map_option (alter q f)) t"
      using False by (simp add: alter_cons_map)
    finally show ?thesis .
  qed
qed

lemma lookup_alter_nil [simp]: "lookup (alter p f t) [] = Some (alter p f t)"
  by simp

lemma lookup_alter1:
  "lookup (alter [n] f (Dir m cs)) (k # q) =
    (if k = n then (case f (map_of cs n) of None \<Rightarrow> None | Some c \<Rightarrow> lookup c q)
     else lookup (Dir m cs) (k # q))"
  by (auto simp: update_conv' delete_conv' split: option.splits)

lemma lookup_alter_cons:
  "lookup (alter (n # p) f (Dir m cs)) (k # q) =
    (if k = n then
       (if p = [] then (case f (map_of cs n) of None \<Rightarrow> None | Some c \<Rightarrow> lookup c q)
        else (case map_of cs n of None \<Rightarrow> None | Some c \<Rightarrow> lookup (alter p f c) q))
     else lookup (Dir m cs) (k # q))"
  by (cases p) (auto simp: update_conv' delete_conv' split: option.splits)

lemma is_dir_simps [simp]:
  "is_dir None = False" "is_dir (Some (Dir m cs)) = True" "is_dir (Some (Lnk m t)) = False"
  "is_dir (Some (Reg m)) = False" "is_dir (Some (Special k m)) = False"
  by (simp_all add: is_dir_def)

lemma lookup_alter_same:
  "p \<noteq> [] \<Longrightarrow> lookup (alter p f t) p = (if is_dir (lookup t (butlast p)) then f (lookup t p) else None)"
proof (induction p f t rule: alter.induct)
  case (1 f t)
  then show ?case by simp
next
  case (2 n f t)
  show ?case by (cases t) (auto simp: update_conv' delete_conv' split: option.splits)
next
  case (3 n v va f t)
  show ?case
  proof (cases t)
    case (Dir m cs)
    show ?thesis
    proof (cases "map_of cs n")
      case None
      with Dir show ?thesis by simp
    next
      case (Some c)
      with Dir 3 show ?thesis by (simp add: update_conv')
    qed
  qed simp_all
qed

lemma lookup_alter_below:
  "p \<noteq> [] \<Longrightarrow> lookup (alter p f t) (p @ r) =
     (if is_dir (lookup t (butlast p))
      then (case f (lookup t p) of None \<Rightarrow> None | Some v \<Rightarrow> lookup v r) else None)"
  using lookup_alter_same[of p f t] by (simp add: lookup_append)

lemma lookup_alter_above:
  "r \<noteq> [] \<Longrightarrow> lookup (alter (q @ r) f t) q = map_option (alter r f) (lookup t q)"
proof (induction q arbitrary: t)
  case Nil
  then show ?case by simp
next
  case (Cons n q)
  then have ne: "q @ r \<noteq> []" by simp
  show ?case
  proof (cases t)
    case (Dir m cs)
    then show ?thesis using Cons ne
      by (auto simp: alter_cons update_conv' split: option.splits)
  qed (simp_all add: alter_not_dir)
qed

lemma lookup_alter_other:
  "\<not> prefix p q \<Longrightarrow> \<not> prefix q p \<Longrightarrow> lookup (alter p f t) q = lookup t q"
proof (induction p arbitrary: q t)
  case Nil
  then show ?case by simp
next
  case (Cons n p)
  from Cons.prems obtain k q' where q: "q = k # q'" by (cases q) auto
  show ?case
  proof (cases t)
    case (Dir m cs)
    show ?thesis
    proof (cases "k = n")
      case True
      with Cons.prems q have np: "\<not> prefix p q'" "\<not> prefix q' p" by auto
      then have "p \<noteq> []" by auto
      then have "lookup (alter (n # p) f (Dir m cs)) (n # q') =
          (case map_of cs n of None \<Rightarrow> None | Some c \<Rightarrow> lookup (alter p f c) q')"
        by (simp add: lookup_alter_cons del: lookup.simps alter.simps)
      with True Dir q Cons.IH[OF np] show ?thesis
        by (simp split: option.splits)
    next
      case False
      with Dir q show ?thesis by (simp only: lookup_alter_cons if_False)
    qed
  qed (simp_all add: alter_not_dir)
qed

lemma ralter_Some: "p \<noteq> [] \<Longrightarrow> ralter p f (Some t) = Some (alter p f t)"
  by (cases p) simp_all

lemma ralter_None: "p \<noteq> [] \<Longrightarrow> ralter p f None = None"
  by (cases p) simp_all

lemma rlookup_ralter_same:
  "p \<noteq> [] \<Longrightarrow> rlookup (ralter p f t) p = (if is_dir (rlookup t (butlast p)) then f (rlookup t p) else None)"
  by (cases t) (simp_all add: ralter_Some ralter_None lookup_alter_same)

lemma rlookup_ralter_above:
  "r \<noteq> [] \<Longrightarrow> rlookup (ralter (q @ r) f t) q = map_option (alter r f) (rlookup t q)"
  by (cases t) (simp_all add: ralter_Some ralter_None lookup_alter_above)

lemma rlookup_ralter_other:
  "\<not> prefix p q \<Longrightarrow> \<not> prefix q p \<Longrightarrow> rlookup (ralter p f t) q = rlookup t q"
  by (cases t; cases "p = []") (simp_all add: ralter_Some ralter_None lookup_alter_other)

lemma rlookup_ralter_below:
  "p \<noteq> [] \<Longrightarrow> rlookup (ralter p f t) (p @ r) =
     (if is_dir (rlookup t (butlast p))
      then (case f (rlookup t p) of None \<Rightarrow> None | Some v \<Rightarrow> lookup v r) else None)"
  by (cases t) (simp_all add: ralter_Some ralter_None lookup_alter_below)

lemma is_dir_alter [simp]: "is_dir (map_option (alter r f) x) = is_dir x"
proof (cases x)
  case (Some t)
  then show ?thesis
    by (cases t; cases r; cases "tl r") (auto simp: is_dir_def split: option.splits)
qed simp

lemma parent_is_dir_iff: "parent_is_dir t p \<longleftrightarrow> p \<noteq> [] \<and> is_dir (rlookup t (butlast p))"
  by (auto simp: parent_is_dir_def is_dir_def split: option.splits node.splits)

lemma is_dir_butlast_ralter [simp]:
  "p \<noteq> [] \<Longrightarrow> is_dir (rlookup (ralter p f t) (butlast p)) = is_dir (rlookup t (butlast p))"
proof -
  assume "p \<noteq> []"
  then have "rlookup (ralter (butlast p @ [last p]) f t) (butlast p) =
      map_option (alter [last p] f) (rlookup t (butlast p))"
    by (intro rlookup_ralter_above) simp
  with \<open>p \<noteq> []\<close> show ?thesis by simp
qed

lemma parent_is_dir_ralter [simp]: "parent_is_dir (ralter p f t) p = parent_is_dir t p"
  by (cases "p = []") (simp_all add: parent_is_dir_iff)

lemma alter_same_value: "lookup t p = Some v \<Longrightarrow> p \<noteq> [] \<Longrightarrow> alter p (\<lambda>_. Some v) t = t"
proof (induction p arbitrary: t)
  case Nil
  then show ?case by simp
next
  case (Cons n p)
  from Cons.prems obtain m cs where t: "t = Dir m cs" by (cases t) auto
  show ?case
  proof (cases "p = []")
    case True
    with Cons.prems t show ?thesis by (auto simp: update_triv split: option.splits)
  next
    case False
    with Cons.prems t obtain c where c: "map_of cs n = Some c" "lookup c p = Some v"
      by (auto split: option.splits)
    with Cons.IH[OF c(2) False] False t show ?thesis
      by (simp add: alter_cons update_triv)
  qed
qed

lemma alter_after_set:
  "p \<noteq> [] \<Longrightarrow> alter p f (alter p (\<lambda>_. Some X) t) = alter p (\<lambda>_. f (Some X)) t"
proof (induction p arbitrary: t)
  case Nil
  then show ?case by simp
next
  case (Cons n p)
  show ?case
  proof (cases t)
    case (Dir m cs)
    show ?thesis
    proof (cases "p = []")
      case True
      with Dir show ?thesis
        by (auto simp: update_conv' delete_update_same split: option.splits)
    next
      case False
      with Dir Cons.IH[OF False] show ?thesis
        by (auto simp: alter_cons update_conv' split: option.splits)
    qed
  qed (simp_all add: alter_not_dir)
qed

lemma alter_below_set:
  "p \<noteq> [] \<Longrightarrow> r \<noteq> [] \<Longrightarrow>
   alter (p @ r) g (alter p (\<lambda>_. Some X) t) = alter p (\<lambda>_. Some (alter r g X)) t"
  by (simp add: alter_append alter_after_set)

lemma ralter_same_value: "rlookup t p = Some v \<Longrightarrow> ralter p (\<lambda>_. Some v) t = t"
  by (cases t; cases "p = []") (simp_all add: ralter_Some alter_same_value)

lemma ralter_after_set:
  "ralter p f (ralter p (\<lambda>_. Some X) t) = ralter p (\<lambda>_. f (Some X)) t"
  by (cases t; cases "p = []") (simp_all add: ralter_Some ralter_None alter_after_set)

lemma ralter_below_set:
  "r \<noteq> [] \<Longrightarrow> ralter (p @ r) g (ralter p (\<lambda>_. Some X) t) = ralter p (\<lambda>_. Some (alter r g X)) t"
  by (cases t; cases "p = []") (simp_all add: ralter_Some ralter_None alter_below_set)

lemma rlookup_parent_dir:
  "rlookup t p = Some n \<Longrightarrow> p \<noteq> [] \<Longrightarrow> is_dir (rlookup t (butlast p))"
proof -
  assume a: "rlookup t p = Some n" "p \<noteq> []"
  then have "rlookup t (butlast p @ [last p]) = Some n" by simp
  then show ?thesis
    by (cases t) (auto simp: lookup_snoc is_dir_def simp del: append_butlast_last_id split: option.splits node.splits)
qed

lemma rlookup_snoc:
  "rlookup t (p @ [n]) = (case rlookup t p of Some (Dir m cs) \<Rightarrow> map_of cs n | _ \<Rightarrow> None)"
  by (cases t) (simp_all add: lookup_snoc)

lemma height_pos [simp]: "0 < height n"
  by (cases n) simp_all

lemma fold_max_le: "fold max xs (a::nat) \<le> d \<longleftrightarrow> a \<le> d \<and> (\<forall>x\<in>set xs. x \<le> d)"
  by (induction xs arbitrary: a) auto

lemma height_Dir_le: "height (Dir m cs) \<le> Suc d \<longleftrightarrow> (\<forall>nc\<in>set cs. height (snd nc) \<le> d)"
  by (auto simp: fold_max_le)

lemma core_of_alter [simp]: "r \<noteq> [] \<Longrightarrow> core_of (alter r f n) = core_of n"
  by (cases n; cases r; cases "tl r") (auto split: option.splits)

lemma obs_ralter_outside: "\<not> prefix p q \<Longrightarrow> obs (ralter p f t) q = obs t q"
proof (cases "prefix q p")
  case False
  assume "\<not> prefix p q"
  with False show ?thesis by (simp add: obs_def rlookup_ralter_other)
next
  case True
  assume np: "\<not> prefix p q"
  from True obtain r where r: "p = q @ r" by (auto simp: prefix_def)
  with np have "r \<noteq> []" by auto
  with r show ?thesis
    by (simp add: obs_def rlookup_ralter_above option.map_comp comp_def)
qed

lemma set_update_subset: "set (AList.update k v al) \<subseteq> insert (k, v) (set al)"
  by (induction al) auto

lemma set_delete_subset: "set (AList.delete k al) \<subseteq> set al"
  by (induction al) auto

lemma wf_node_alter:
  "wf_node t \<Longrightarrow> (case f (lookup t p) of None \<Rightarrow> True | Some v \<Rightarrow> wf_node v) \<Longrightarrow> wf_node (alter p f t)"
proof (induction p arbitrary: t)
  case Nil
  then show ?case by simp
next
  case (Cons n p)
  show ?case
  proof (cases t)
    case (Dir m cs)
    show ?thesis
    proof (cases "p = []")
      case True
      with Dir Cons.prems show ?thesis
        by (auto simp: distinct_update distinct_delete list_all_iff split: option.splits
            dest!: subsetD[OF set_update_subset] subsetD[OF set_delete_subset])
    next
      case False
      show ?thesis
      proof (cases "map_of cs n")
        case None
        with Dir False Cons.prems(1) show ?thesis by (simp add: alter_cons)
      next
        case (Some c)
        then have "(n, c) \<in> set cs" by (rule map_of_SomeD)
        with Dir Cons.prems(1) have wc: "wf_node c" by (auto simp: list_all_iff)
        from Cons.prems(2) Dir Some have "case f (lookup c p) of None \<Rightarrow> True | Some v \<Rightarrow> wf_node v"
          by simp
        from Cons.IH[OF wc this] Dir False Some Cons.prems(1) show ?thesis
          by (auto simp: alter_cons distinct_update list_all_iff
              dest!: subsetD[OF set_update_subset])
      qed
    qed
  qed (simp_all add: alter_not_dir)
qed

lemma wf_tree_ralter:
  "wf_tree t \<Longrightarrow> (case f (rlookup t p) of None \<Rightarrow> True | Some v \<Rightarrow> wf_node v) \<Longrightarrow>
   wf_tree (ralter p f t)"
  by (cases t; cases "p = []")
     (auto simp: wf_tree_def ralter_Some ralter_None wf_node_alter split: option.splits)

lemma wf_node_lookup: "wf_node t \<Longrightarrow> lookup t p = Some n \<Longrightarrow> wf_node n"
proof (induction p arbitrary: t)
  case Nil
  then show ?case by simp
next
  case (Cons k p)
  then show ?case
    by (cases t) (auto simp: list_all_iff split: option.splits dest!: map_of_SomeD)
qed

lemma wf_tree_rlookup: "wf_tree t \<Longrightarrow> rlookup t p = Some n \<Longrightarrow> wf_node n"
  by (cases t) (auto simp: wf_tree_def wf_node_lookup)

lemma wf_node_set_meta [simp]: "wf_node (set_meta m n) = wf_node n"
  by (cases n) simp_all

lemma local_change_refl: "local_change p t t"
  by (simp add: local_change_def)

lemma local_change_ralter:
  "(wf_tree t \<Longrightarrow> case f (rlookup t p) of None \<Rightarrow> True | Some v \<Rightarrow> wf_node v) \<Longrightarrow>
   local_change p t (ralter p f t)"
  by (auto simp: local_change_def obs_ralter_outside intro: wf_tree_ralter)

lemma local_change_set_meta:
  "local_change p t (ralter p (map_option (\<lambda>n. set_meta (g (node_meta n)) n)) t)"
  by (rule local_change_ralter) (auto split: option.splits dest: wf_tree_rlookup)

lemma lstat_type [simp]: "S_IFMT (st_mode (lstat_of n)) = node_type n"
  by (simp add: lstat_of_def S_IFMT_def)

lemma S_IS_lstat [simp]:
  "S_ISDIR (st_mode (lstat_of n)) = (node_type n = S_IFDIR)"
  "S_ISLNK (st_mode (lstat_of n)) = (node_type n = S_IFLNK)"
  "S_ISREG (st_mode (lstat_of n)) = (node_type n = S_IFREG)"
  by (simp_all add: S_ISDIR_def S_ISLNK_def S_ISREG_def)

lemma lookup_Lnk: "lookup (Lnk m t) p = (if p = [] then Some (Lnk m t) else None)"
  by (cases p) simp_all

lemma through_link_lookup: "through_link t p \<Longrightarrow> lookup t p = None"
  by (induction t p rule: through_link.induct)
     (auto simp: lookup_Lnk split: option.splits node.splits)

lemma through_link_parent: "through_link t p \<Longrightarrow> \<not> is_dir (lookup t (butlast p))"
  by (induction t p rule: through_link.induct)
     (auto simp: is_dir_def lookup_Lnk split: option.splits node.splits if_splits)

lemma beyond_rlookup: "beyond t p \<Longrightarrow> rlookup t p = None"
  by (cases t) (simp_all add: beyond_def through_link_lookup)

lemma beyond_parent: "beyond t p \<Longrightarrow> \<not> is_dir (rlookup t (butlast p))"
  by (cases t) (simp_all add: beyond_def through_link_parent)

lemma not_beyond_root [simp]: "\<not> beyond t []"
  by (cases t; cases "the t") (simp_all add: beyond_def)

lemma not_beyond_found: "rlookup t p = Some n \<Longrightarrow> \<not> beyond t p"
  using beyond_rlookup by fastforce

lemma not_beyond_found' [simp]: "rlookup t p \<noteq> None \<Longrightarrow> beyond t p = False"
  by (auto dest: beyond_rlookup)

lemma not_beyond_parent: "is_dir (rlookup t (butlast p)) \<Longrightarrow> \<not> beyond t p"
  using beyond_parent by blast

section \<open>The calls a pass issues\<close>

lemma extends_refl: "extends P s s"
  by (simp add: extends_def)

lemma extends_trans: "extends P s s1 \<Longrightarrow> extends P s1 s2 \<Longrightarrow> extends P s s2"
  unfolding extends_def by (elim conjE exE) (intro conjI; (simp; fail)?; fastforce)

lemma extends_mono: "extends P s s' \<Longrightarrow> (\<And>c. P c \<Longrightarrow> Q c) \<Longrightarrow> extends Q s s'"
  unfolding extends_def by (elim conjE exE) (intro conjI; (simp; fail)?; fastforce)

lemma extends_ops_since: "extends P s s' \<Longrightarrow> c \<in> set (ops_since s s') \<Longrightarrow> P c"
  by (auto simp: extends_def ops_since_def)

lemma extends_log: "extends P s s' \<Longrightarrow> \<exists>tr. log s' = log s @ tr"
  by (auto simp: extends_def)

lemma extends_faults: "extends P s s' \<Longrightarrow> faults s' = faults s"
  by (simp add: extends_def)

lemma extends_wf: "extends P s s' \<Longrightarrow> wf_tree (tree s) \<Longrightarrow> wf_tree (tree s')"
  by (simp add: extends_def)

lemma extends_obs:
  "extends P s s' \<Longrightarrow> (\<And>c. P c \<Longrightarrow> \<not> is_read c \<Longrightarrow> \<not> prefix (op_path c) q) \<Longrightarrow>
   obs (tree s') q = obs (tree s) q"
  by (simp add: extends_def)

lemma call_extends:
  assumes "call c sem s = (r, s')" and "P c"
    and "if is_read c then snd (sem s) = tree s else local_change (op_path c) (tree s) (snd (sem s))"
  shows "extends P s s'"
proof (cases "faults s c")
  case (Some e)
  with assms(1,2) show ?thesis by (auto simp: call_def extends_def Let_def)
next
  case None
  with assms(1) have s': "s' = s\<lparr>log := log s @ [c], tree := snd (sem s)\<rparr>"
    by (auto simp: call_def Let_def split: prod.splits)
  show ?thesis
  proof (cases "is_read c")
    case True
    with assms(2,3) s' show ?thesis by (auto simp: extends_def)
  next
    case False
    with assms(3) have lc: "local_change (op_path c) (tree s) (snd (sem s))" by simp
    with assms(2) s' False show ?thesis by (auto simp: extends_def local_change_def)
  qed
qed

lemma call_log: "call c sem s = (r, s') \<Longrightarrow> log s' = log s @ [c]"
  by (auto simp: call_def Let_def split: option.splits prod.splits)

lemma call_fault: "faults s c = Some e \<Longrightarrow> call c sem s = (Raise e, s\<lparr>log := log s @ [c]\<rparr>)"
  by (simp add: call_def Let_def)

lemma call_ok: "faults s c = None \<Longrightarrow>
  call c sem s = (fst (sem s), s\<lparr>log := log s @ [c], tree := snd (sem s)\<rparr>)"
  by (simp add: call_def Let_def split: prod.splits)

lemma serve_plain: "\<not> beyond (tree s) (op_path c) \<Longrightarrow> serve c f sem s = call c sem s"
  by (simp add: serve_def call_def)

lemma serve_extends:
  assumes "serve c f sem s = (r, s')" and "P c"
    and "if is_read c then snd (sem s) = tree s else local_change (op_path c) (tree s) (snd (sem s))"
  shows "extends P s s'"
proof -
  from assms(1)
  have "call c (\<lambda>s. if beyond (tree s) (op_path c) then (answer s c f, tree s) else sem s) s = (r, s')"
    by (simp add: serve_def)
  then show ?thesis
    by (rule call_extends) (use assms(2,3) in \<open>simp_all add: local_change_refl\<close>)
qed

lemma serve_log: "serve c f sem s = (r, s') \<Longrightarrow> log s' = log s @ [c]"
  unfolding serve_def by (rule call_log)

lemma serve_fault: "faults s c = Some e \<Longrightarrow> serve c f sem s = (Raise e, s\<lparr>log := log s @ [c]\<rparr>)"
  unfolding serve_def by (rule call_fault)

lemma serve_ok: "faults s c = None \<Longrightarrow> \<not> beyond (tree s) (op_path c) \<Longrightarrow>
  serve c f sem s = (fst (sem s), s\<lparr>log := log s @ [c], tree := snd (sem s)\<rparr>)"
  by (simp add: serve_plain call_ok)

lemmas serve_defs = serve_def call_def beyond_def answer_def listed_as_def packs_def

lemmas sftp_defs = sftp_listdir_attr_def sftp_lstat_def sftp_stat_def sftp_mkdir_def
  sftp_rmdir_def sftp_remove_def sftp_readlink_def sftp_symlink_def sftp_chmod_def
  sftp_utime_def sftp_chown_def sftp_put_def

lemma set_attr_local: "local_change p (tree s) (snd (set_attr p g s))"
  by (auto simp: set_attr_def local_change_refl local_change_set_meta split: option.splits node.splits)

lemma sftp_extends:
  "sftp_listdir_attr p s = (rl, s') \<Longrightarrow> P (Listdir p) \<Longrightarrow> extends P s s'"
  "sftp_lstat p s = (rs, s') \<Longrightarrow> P (Lstat p) \<Longrightarrow> extends P s s'"
  "sftp_stat p s = (rs, s') \<Longrightarrow> P (Stat p) \<Longrightarrow> extends P s s'"
  "sftp_mkdir p s = (r, s') \<Longrightarrow> P (Mkdir p) \<Longrightarrow> extends P s s'"
  "sftp_rmdir p s = (r, s') \<Longrightarrow> P (Rmdir p) \<Longrightarrow> extends P s s'"
  "sftp_remove p s = (r, s') \<Longrightarrow> P (Remove p) \<Longrightarrow> extends P s s'"
  "sftp_readlink p s = (rt, s') \<Longrightarrow> P (Readlink p) \<Longrightarrow> extends P s s'"
  "sftp_symlink d p s = (r, s') \<Longrightarrow> P (Symlink d p) \<Longrightarrow> extends P s s'"
  "sftp_chmod p m s = (r, s') \<Longrightarrow> P (Chmod p m) \<Longrightarrow> extends P s s'"
  "sftp_utime p tm s = (r, s') \<Longrightarrow> P (Utime p (fst tm) (snd tm)) \<Longrightarrow> extends P s s'"
  "sftp_chown p u g s = (r, s') \<Longrightarrow> P (Chown p u g) \<Longrightarrow> extends P s s'"
  "sftp_put lfs lp p s = (r, s') \<Longrightarrow> P (Put lp p) \<Longrightarrow> extends P s s'"
proof -
  show "sftp_listdir_attr p s = (rl, s') \<Longrightarrow> P (Listdir p) \<Longrightarrow> extends P s s'"
    unfolding sftp_listdir_attr_def
    by (erule serve_extends, assumption) (simp split: option.splits node.splits)
  show "sftp_lstat p s = (rs, s') \<Longrightarrow> P (Lstat p) \<Longrightarrow> extends P s s'"
    unfolding sftp_lstat_def
    by (erule serve_extends, assumption) (simp split: option.splits)
  show "sftp_stat p s = (rs, s') \<Longrightarrow> P (Stat p) \<Longrightarrow> extends P s s'"
    unfolding sftp_stat_def
    by (erule serve_extends, assumption) (simp split: option.splits node.splits)
  show "sftp_mkdir p s = (r, s') \<Longrightarrow> P (Mkdir p) \<Longrightarrow> extends P s s'"
    unfolding sftp_mkdir_def
    by (erule serve_extends, assumption)
       (auto simp: local_change_refl intro!: local_change_ralter)
  show "sftp_rmdir p s = (r, s') \<Longrightarrow> P (Rmdir p) \<Longrightarrow> extends P s s'"
    unfolding sftp_rmdir_def
    by (erule serve_extends, assumption)
       (auto simp: local_change_refl intro!: local_change_ralter split: option.splits node.splits list.splits)
  show "sftp_remove p s = (r, s') \<Longrightarrow> P (Remove p) \<Longrightarrow> extends P s s'"
    unfolding sftp_remove_def
    by (erule serve_extends, assumption)
       (auto simp: local_change_refl intro!: local_change_ralter split: option.splits node.splits)
  show "sftp_readlink p s = (rt, s') \<Longrightarrow> P (Readlink p) \<Longrightarrow> extends P s s'"
    unfolding sftp_readlink_def
    by (erule serve_extends, assumption) (simp split: option.splits node.splits)
  show "sftp_symlink d p s = (r, s') \<Longrightarrow> P (Symlink d p) \<Longrightarrow> extends P s s'"
    unfolding sftp_symlink_def
    by (erule serve_extends, assumption)
       (auto simp: local_change_refl intro!: local_change_ralter)
  show "sftp_chmod p m s = (r, s') \<Longrightarrow> P (Chmod p m) \<Longrightarrow> extends P s s'"
    unfolding sftp_chmod_def
    by (erule serve_extends, assumption) (simp add: set_attr_local)
  show "sftp_utime p tm s = (r, s') \<Longrightarrow> P (Utime p (fst tm) (snd tm)) \<Longrightarrow> extends P s s'"
    unfolding sftp_utime_def
    by (auto split: if_splits simp: extends_refl set_attr_local elim!: serve_extends)
  show "sftp_chown p u g s = (r, s') \<Longrightarrow> P (Chown p u g) \<Longrightarrow> extends P s s'"
    unfolding sftp_chown_def
    by (erule serve_extends, assumption) (simp add: set_attr_local)
  show "sftp_put lfs lp p s = (r, s') \<Longrightarrow> P (Put lp p) \<Longrightarrow> extends P s s'"
    unfolding sftp_put_def
    by (erule serve_extends, assumption)
       (auto simp: local_change_refl intro!: local_change_ralter split: option.splits node.splits)
qed

lemma for_each_extends_aux:
  "\<forall>x\<in>set xs. \<forall>s r s'. body x s = (r, s') \<longrightarrow> extends P s s' \<Longrightarrow>
   for_each body xs s = (r, s') \<Longrightarrow> extends P s s'"
proof (induction xs arbitrary: s)
  case Nil
  then show ?case by (simp add: extends_refl)
next
  case (Cons x xs)
  obtain r1 s1 where b: "body x s = (r1, s1)" by (cases "body x s")
  have e1: "extends P s s1" using Cons.prems(1) b by simp
  show ?case
  proof (cases r1)
    case (Return u)
    with Cons.prems(2) b have "for_each body xs s1 = (r, s')" by simp
    then have "extends P s1 s'" using Cons.IH Cons.prems(1) by simp
    with e1 show ?thesis by (rule extends_trans)
  next
    case (Raise e)
    with Cons.prems(2) b e1 show ?thesis by simp
  next
    case Struct_error
    with Cons.prems(2) b e1 show ?thesis by simp
  next
    case Exhausted
    with Cons.prems(2) b e1 show ?thesis by simp
  qed
qed

lemma for_each_extends:
  assumes "\<And>x s r s'. x \<in> set xs \<Longrightarrow> body x s = (r, s') \<Longrightarrow> extends P s s'"
    and "for_each body xs s = (r, s')"
  shows "extends P s s'"
  using for_each_extends_aux[OF _ assms(2), of P] assms(1) by blast

lemma match_modes_extends:
  assumes "match_modes self p l_st s = (r, s')"
    and "\<And>c. op_path c = p \<Longrightarrow> \<not> is_read c \<Longrightarrow> \<not> is_write c \<Longrightarrow> P c"
  shows "extends P s s'"
  using assms(1) unfolding match_modes_def
  by (auto split: prod.splits outcome.splits if_splits
      intro!: assms(2) dest!: sftp_extends(9,10,11)[where P=P] elim: extends_trans)

lemma file_upload_extends:
  assumes "file_upload self lfs lp p l_st s = (r, s')"
    and "\<And>c. op_path c = p \<Longrightarrow> P c"
  shows "extends P s s'"
  using assms(1) unfolding file_upload_def
  by (auto split: prod.splits outcome.splits
      intro!: assms(2) dest!: sftp_extends(12)[where P=P] match_modes_extends[where P=P] elim: extends_trans)

lemma create_update_symlink_extends:
  assumes "create_update_symlink d p s = (r, s')"
    and "\<And>c. op_path c = p \<Longrightarrow> P c"
  shows "extends P s s'"
  using assms(1) unfolding create_update_symlink_def Let_def
  by (auto split: prod.splits outcome.splits if_splits
      intro!: assms(2) dest!: sftp_extends(6,7,8)[where P=P]) (blast intro: extends_trans)+


lemma strict_prefix_snoc [simp]: "strict_prefix rel (rel @ [n])"
  by (simp add: strict_prefix_def)

lemma prefix_snoc_strict: "prefix (rel @ [n]) q \<Longrightarrow> strict_prefix rel q"
  by (auto simp: strict_prefix_def prefix_def)

lemma strict_prefix_snoc_strict: "strict_prefix (rel @ [n]) q \<Longrightarrow> strict_prefix rel q"
  by (auto simp: strict_prefix_def prefix_def)

lemma remote_delete_extends:
  "remote_delete d p st s = (r, s') \<Longrightarrow> (\<And>c. prefix p (op_path c) \<Longrightarrow> P c) \<Longrightarrow> extends P s s'"
proof (induction d arbitrary: p st s r s')
  case 0
  then show ?case by (simp add: extends_refl)
next
  case (Suc d)
  show ?case
  proof (cases "S_ISDIR (st_mode st)")
    case True
    obtain rl s1 where l: "sftp_listdir_attr p s = (rl, s1)" by (cases "sftp_listdir_attr p s")
    have e1: "extends P s s1" using sftp_extends(1)[OF l] Suc.prems(2) by simp
    show ?thesis
    proof (cases rl)
      case (Return items)
      obtain r2 s2 where f: "for_each (\<lambda>(filename, item). remote_delete d (p @ [filename]) item) items s1 = (r2, s2)"
        by (cases "for_each (\<lambda>(filename, item). remote_delete d (p @ [filename]) item) items s1")
      have e2: "extends P s1 s2"
        by (rule for_each_extends[OF _ f]) (auto intro!: Suc.IH Suc.prems(2) dest: append_prefixD split: prod.splits)
      show ?thesis
      proof (cases r2)
        case (Return u)
        with Suc.prems(1) True l \<open>rl = Return items\<close> f have "sftp_rmdir p s2 = (r, s')" by simp
        then have "extends P s2 s'" using sftp_extends(5) Suc.prems(2) by simp
        with e1 e2 show ?thesis by (blast intro: extends_trans)
      next
        case (Raise e)
        with Suc.prems(1) True l \<open>rl = Return items\<close> f e1 e2 show ?thesis
          by (auto intro: extends_trans)
      next
        case Struct_error
        with Suc.prems(1) True l \<open>rl = Return items\<close> f e1 e2 show ?thesis
          by (auto intro: extends_trans)
      next
        case Exhausted
        with Suc.prems(1) True l \<open>rl = Return items\<close> f e1 e2 show ?thesis
          by (auto intro: extends_trans)
      qed
    next
      case (Raise e)
      with Suc.prems(1) True l e1 show ?thesis by simp
    next
      case Struct_error
      with Suc.prems(1) True l e1 show ?thesis by simp
    next
      case Exhausted
      with Suc.prems(1) True l e1 show ?thesis by simp
    qed
  next
    case False
    obtain r1 s1 where l: "sftp_remove p s = (r1, s1)" by (cases "sftp_remove p s")
    have e1: "extends P s s1" using sftp_extends(6)[OF l] Suc.prems(2) by simp
    from Suc.prems(1) False l have "s' = s1"
      by (auto split: outcome.splits ioerror.splits)
    with e1 show ?thesis by simp
  qed
qed

lemma check_for_deletion_entry_extends:
  assumes cfd: "\<And>rel s r s'. check_for_deletion d self lfs rel s = (r, s') \<Longrightarrow>
      (\<And>c. c = Listdir rel \<or> strict_prefix rel (op_path c) \<Longrightarrow> P c) \<Longrightarrow> extends P s s'"
    and run: "check_for_deletion_entry d self lfs rel e s = (r, s')"
    and P: "\<And>c. prefix (rel @ [fst e]) (op_path c) \<Longrightarrow> P c"
  shows "extends P s s'"
proof -
  obtain n remote_st where e: "e = (n, remote_st)" by (cases e)
  obtain r1 s1 where l: "sftp_lstat (rel @ [n]) s = (r1, s1)" by (cases "sftp_lstat (rel @ [n]) s")
  have Pbelow: "\<And>c. prefix (rel @ [n]) (op_path c) \<Longrightarrow> P c"
    using P e by simp
  have e1: "extends P s s1" by (rule sftp_extends(2)[OF l]) (simp add: Pbelow)
  show ?thesis
  proof (cases r1)
    case (Return r_lstat)
    from run e l Return consider
        (del1) "remote_delete d (rel @ [n]) r_lstat s1 = (r, s')"
      | (del2) "remote_delete d (rel @ [n]) remote_st s1 = (r, s')"
      | (rec) "check_for_deletion d self lfs (rel @ [n]) s1 = (r, s')"
      | (skip) "s' = s1"
      by (auto split: if_splits)
    then have "extends P s1 s'"
    proof cases
      case del1
      then show ?thesis using Pbelow by (rule remote_delete_extends)
    next
      case del2
      then show ?thesis using Pbelow by (rule remote_delete_extends)
    next
      case rec
      then show ?thesis
        by (rule cfd) (auto intro!: Pbelow simp: strict_prefix_def)
    next
      case skip
      then show ?thesis by (simp add: extends_refl)
    qed
    with e1 show ?thesis by (rule extends_trans)
  next
    case (Raise x)
    with run e l e1 show ?thesis by simp
  next
    case Struct_error
    with run e l e1 show ?thesis by simp
  next
    case Exhausted
    with run e l e1 show ?thesis by simp
  qed
qed

lemma check_for_deletion_extends:
  "check_for_deletion d self lfs rel s = (r, s') \<Longrightarrow>
   (\<And>c. c = Listdir rel \<or> strict_prefix rel (op_path c) \<Longrightarrow> P c) \<Longrightarrow> extends P s s'"
proof (induction d arbitrary: rel s r s')
  case 0
  then show ?case by (simp add: extends_refl)
next
  case (Suc d)
  obtain rl s0 where l: "sftp_listdir_attr rel s = (rl, s0)" by (cases "sftp_listdir_attr rel s")
  have e1: "extends P s s0" using sftp_extends(1)[OF l] Suc.prems(2) by simp
  show ?case
  proof (cases rl)
    case (Return entries)
    with Suc.prems(1) l have f: "for_each (check_for_deletion_entry d self lfs rel) entries s0 = (r, s')"
      by simp
    have "extends P s0 s'"
    proof (rule for_each_extends[OF _ f])
      fix x s r s'
      assume "check_for_deletion_entry d self lfs rel x s = (r, s')"
      then show "extends P s s'"
        by (rule check_for_deletion_entry_extends[rotated])
           (auto intro: Suc.IH Suc.prems(2) dest: prefix_snoc_strict)
    qed
    with e1 show ?thesis by (rule extends_trans)
  next
    case (Raise e)
    with Suc.prems(1) l e1 show ?thesis by simp
  next
    case Struct_error
    with Suc.prems(1) l e1 show ?thesis by simp
  next
    case Exhausted
    with Suc.prems(1) l e1 show ?thesis by simp
  qed
qed


lemma visible_child: "rel @ [f] \<notin> exclude_list self \<Longrightarrow> visible self rel (rel @ [f])"
  by (auto simp: visible_def strict_prefix_def prefix_def append_eq_append_conv2 Cons_eq_append_conv)

lemma visible_descend:
  assumes "rel @ [f] \<notin> exclude_list self" and "visible self (rel @ [f]) q"
  shows "visible self rel q"
  unfolding visible_def
proof (intro conjI allI impI)
  from assms(2) show "strict_prefix rel q"
    by (auto simp: visible_def dest: strict_prefix_snoc_strict)
next
  fix q'
  assume a: "strict_prefix rel q' \<and> prefix q' q"
  from assms(2) have pq: "prefix (rel @ [f]) q" by (simp add: visible_def strict_prefix_def)
  from a obtain zs where z: "q' = rel @ zs" "zs \<noteq> []"
    by (auto simp: strict_prefix_def prefix_def)
  then obtain x xs where q': "q' = rel @ x # xs"
    by (cases zs) auto
  from a pq q' have "x = f" by (auto simp: prefix_def)
  show "q' \<notin> exclude_list self"
  proof (cases xs)
    case Nil
    with q' \<open>x = f\<close> assms(1) show ?thesis by simp
  next
    case (Cons y ys)
    with q' \<open>x = f\<close> have "strict_prefix (rel @ [f]) q'" by (simp add: strict_prefix_def prefix_def)
    with assms(2) a show ?thesis by (simp add: visible_def)
  qed
qed

lemma node_check_for_upload_create_extends:
  assumes cfuc: "\<And>rel s r s'. check_for_upload_create d self lfs rel s = (r, s') \<Longrightarrow>
      (\<And>c. visible self rel (op_path c) \<Longrightarrow> P c) \<Longrightarrow> extends P s s'"
    and run: "node_check_for_upload_create d self lfs rel f s = (r, s')"
    and P: "\<And>c. prefix (rel @ [f]) (op_path c) \<Longrightarrow> visible self rel (op_path c) \<Longrightarrow> P c"
  shows "extends P s s'"
proof (cases "rel @ [f] \<in> exclude_list self")
  case True
  with run show ?thesis
    by (auto simp: node_check_for_upload_create.simps extends_refl split: option.splits)
next
  case False
  have Pp: "\<And>c. op_path c = rel @ [f] \<Longrightarrow> P c"
    using visible_child[OF False] by (auto intro: P)
  have st: "\<And>s r s'. sftp_stat (rel @ [f]) s = (r, s') \<Longrightarrow> extends P s s'"
    by (erule sftp_extends) (simp add: Pp)
  have mk: "\<And>s r s'. sftp_mkdir (rel @ [f]) s = (r, s') \<Longrightarrow> extends P s s'"
    by (erule sftp_extends) (simp add: Pp)
  have lst: "\<And>s r s'. sftp_lstat (rel @ [f]) s = (r, s') \<Longrightarrow> extends P s s'"
    by (erule sftp_extends) (simp add: Pp)
  have mm: "\<And>l_st s r s'. match_modes self (rel @ [f]) l_st s = (r, s') \<Longrightarrow> extends P s s'"
    by (erule match_modes_extends) (simp add: Pp)
  have fu: "\<And>lp l_st s r s'. file_upload self lfs lp (rel @ [f]) l_st s = (r, s') \<Longrightarrow> extends P s s'"
    by (erule file_upload_extends) (simp add: Pp)
  have cus: "\<And>dest s r s'. create_update_symlink dest (rel @ [f]) s = (r, s') \<Longrightarrow> extends P s s'"
    by (erule create_update_symlink_extends) (simp add: Pp)
  have rec: "\<And>s r s'. check_for_upload_create d self lfs (rel @ [f]) s = (r, s') \<Longrightarrow> extends P s s'"
    by (erule cfuc) (auto intro!: P visible_descend[OF False] simp: visible_def strict_prefix_def)
  from run False show ?thesis
    by (auto simp: node_check_for_upload_create.simps Let_def extends_refl
        split: option.splits if_splits prod.splits outcome.splits
        dest!: st mk lst mm fu cus rec)
      (blast intro: extends_trans)+
qed

lemma check_for_upload_create_extends:
  "check_for_upload_create d self lfs rel s = (r, s') \<Longrightarrow>
   (\<And>c. visible self rel (op_path c) \<Longrightarrow> P c) \<Longrightarrow> extends P s s'"
proof (induction d arbitrary: rel s r s')
  case 0
  then show ?case by (simp add: extends_refl)
next
  case (Suc d)
  show ?case
  proof (cases "os_listdir lfs rel")
    case None
    with Suc.prems(1) show ?thesis by (simp add: extends_refl)
  next
    case (Some names)
    with Suc.prems(1)
    have f: "for_each (\<lambda>f. node_check_for_upload_create d self lfs rel f) names s = (r, s')"
      by simp
    show ?thesis
    proof (rule for_each_extends[OF _ f])
      fix x s r s'
      assume "node_check_for_upload_create d self lfs rel x s = (r, s')"
      then show "extends P s s'"
        by (rule node_check_for_upload_create_extends[rotated]) (auto intro: Suc.IH Suc.prems(2))
    qed
  qed
qed

lemma common2_prefix: "common2 t a = t \<longleftrightarrow> prefix t a"
  by (induction t a rule: common2.induct) auto

lemma relpath_prefix: "commonprefix [a, t] = t \<longleftrightarrow> prefix t a"
  by (simp add: common2_prefix)

lemmas local_defs = os_lstat_def os_readlink_def os_listdir_def lexists_def lstat_of_def
  S_ISDIR_def S_ISLNK_def S_ISREG_def S_IFMT_def S_IMODE_def

text \<open>
  Claim C4. A local symbolic link whose raw target is absolute and resolves inside the
  local root is, with the fix-symlinks policy off, left alone by the creation pass: the
  node check returns at once, the remote state and the log of calls are exactly what they
  were, whether or not a remote link exists at that path.
\<close>

theorem no_write_when_fix_off:
  assumes "lookup (lroot lfs) (rel @ [f]) = Some (Lnk m local_link)"
    and "startswith local_link ''/''"
    and "prefix (join (local_path self) '''') (realpath lfs local_link)"
    and "\<not> fix_symlinks self"
  shows "node_check_for_upload_create depth self lfs rel f s = (Return (), s)"
  using assms by (simp add: node_check_for_upload_create.simps local_defs Let_def common2_prefix)

lemmas ex_defs = ex_local_def ex_self_def ex_remote_def lmeta_def rmeta_def ex_realpath_def
  startswith_def endswith_def join_def

theorem no_write_when_fix_off_witness:
  "lookup (lroot ex_local) ([] @ [''in'']) = Some (Lnk (lmeta 0 0) ''/a/b/c'')
   \<and> startswith ''/a/b/c'' ''/''
   \<and> prefix (join (local_path (ex_self False)) '''') (realpath ex_local ''/a/b/c'')
   \<and> \<not> fix_symlinks (ex_self False)
   \<and> node_check_for_upload_create 0 (ex_self False) ex_local [] ''in'' ex_remote = (Return (), ex_remote)"
proof -
  have h1: "lookup (lroot ex_local) ([] @ [''in'']) = Some (Lnk (lmeta 0 0) ''/a/b/c'')"
    by (simp add: ex_defs)
  have h2: "startswith ''/a/b/c'' ''/''" by (simp add: startswith_def)
  have h3: "prefix (join (local_path (ex_self False)) '''') (realpath ex_local ''/a/b/c'')"
    by (simp add: ex_defs)
  have h4: "\<not> fix_symlinks (ex_self False)" by (simp add: ex_defs)
  from no_write_when_fix_off[OF h1 h2 h3 h4] h1 h2 h3 h4 show ?thesis by blast
qed


lemma file_need_upload_iff:
  "file_need_upload l_st r_st \<longleftrightarrow>
     st_size l_st \<noteq> st_size r_st \<or> py_int (st_mtime l_st) \<noteq> st_mtime r_st"
  by (auto simp: file_need_upload_def)

lemma file_upload_put:
  assumes "file_upload self lfs lp p l_st s = (r, s')"
  shows "\<exists>tr. log s' = log s @ Put lp p # tr"
proof -
  obtain r1 s1 where pt: "sftp_put lfs lp p s = (r1, s1)" by (cases "sftp_put lfs lp p s")
  then have l1: "log s1 = log s @ [Put lp p]" unfolding sftp_put_def by (rule serve_log)
  show ?thesis
  proof (cases r1)
    case (Return u)
    with assms pt have "match_modes self p l_st s1 = (r, s')" by (simp add: file_upload_def)
    then have "extends (\<lambda>c. True) s1 s'" by (rule match_modes_extends) simp
    with l1 show ?thesis by (auto simp: extends_def)
  next
    case (Raise e)
    with assms pt l1 show ?thesis by (auto simp: file_upload_def)
  next
    case Struct_error
    with assms pt l1 show ?thesis by (auto simp: file_upload_def)
  next
    case Exhausted
    with assms pt l1 show ?thesis by (auto simp: file_upload_def)
  qed
qed

lemma sftp_lstat_ok:
  "faults s (Lstat p) = None \<Longrightarrow> \<not> beyond (tree s) p \<Longrightarrow>
   sftp_lstat p s =
     ((case rlookup (tree s) p of None \<Rightarrow> Raise ENOENT | Some n \<Rightarrow> Return (lstat_of n)),
      s\<lparr>log := log s @ [Lstat p]\<rparr>)"
  by (simp add: sftp_lstat_def serve_ok split: option.splits)

text \<open>
  The upload decision where the server answers the remote \<open>lstat\<close>: for a local regular
  file that the creation pass visits (not excluded, the \<open>lstat\<close> not refused, the path
  leading through no remote link), a \<open>put\<close> is issued exactly when no remote node exists at
  the path, or the sizes differ, or the local modification time truncated to whole seconds
  differs from the remote one.
\<close>

lemma upload_decision:
  assumes "lookup (lroot lfs) (rel @ [f]) = Some (Reg m)"
    and "rel @ [f] \<notin> exclude_list self"
    and "faults s (Lstat (rel @ [f])) = None"
    and "\<not> beyond (tree s) (rel @ [f])"
  shows "Put (rel @ [f]) (rel @ [f])
           \<in> set (ops_since s (snd (node_check_for_upload_create depth self lfs rel f s)))
     \<longleftrightarrow> (case rlookup (tree s) (rel @ [f]) of
            None \<Rightarrow> True
          | Some r \<Rightarrow> m_size m \<noteq> st_size (lstat_of r) \<or> py_int (m_mtime m) \<noteq> st_mtime (lstat_of r))"
proof -
  let ?p = "rel @ [f]"
  let ?l = "lstat_of (Reg m)"
  let ?s1 = "s\<lparr>log := log s @ [Lstat ?p]\<rparr>"
  let ?up = "file_upload self lfs ?p ?p ?l"
  have up_put: "Put ?p ?p \<in> set (ops_since s (snd (?up ?s1)))"
  proof -
    obtain r s' where u: "?up ?s1 = (r, s')" by (cases "?up ?s1")
    from file_upload_put[OF u] show ?thesis by (auto simp: u ops_since_def)
  qed
  have up2_put: "Put ?p ?p \<in> set (ops_since s s'')"
    if u: "?up ?s1 = (r, s')" and v: "?up s' = (r', s'')" for r s' r' s''
    using file_upload_put[OF u] file_upload_put[OF v] by (auto simp: ops_since_def)
  have l_st: "os_lstat lfs ?p = Some ?l" using assms(1) by (simp add: os_lstat_def)
  have reg: "\<not> S_ISDIR (st_mode ?l)" "\<not> S_ISLNK (st_mode ?l)" "S_ISREG (st_mode ?l)"
    by (simp_all add: local_defs)
  show ?thesis
  proof (cases "rlookup (tree s) ?p")
    case None
    then have "sftp_lstat ?p s = (Raise ENOENT, ?s1)" using assms(3,4) by (simp add: sftp_lstat_ok)
    then have "node_check_for_upload_create depth self lfs rel f s = ?up ?s1"
      using l_st reg assms(2) by (simp add: node_check_for_upload_create.simps Let_def)
    with up_put None show ?thesis by simp
  next
    case (Some r)
    then have ls: "sftp_lstat ?p s = (Return (lstat_of r), ?s1)"
      using assms(3,4) by (simp add: sftp_lstat_ok)
    show ?thesis
    proof (cases "file_need_upload ?l (lstat_of r)")
      case True
      obtain r1 s2 where u: "?up ?s1 = (r1, s2)" by (cases "?up ?s1")
      obtain r2 s3 where v: "?up s2 = (r2, s3)" by (cases "?up s2")
      have "snd (node_check_for_upload_create depth self lfs rel f s) = s2
          \<or> snd (node_check_for_upload_create depth self lfs rel f s) = s3"
        using l_st reg assms(2) ls True u v
        by (auto simp: node_check_for_upload_create.simps Let_def split: outcome.splits)
      moreover have "Put ?p ?p \<in> set (ops_since s s2)" using up_put u by simp
      moreover have "Put ?p ?p \<in> set (ops_since s s3)" using up2_put[OF u v] .
      ultimately have "Put ?p ?p \<in> set (ops_since s (snd (node_check_for_upload_create depth self lfs rel f s)))"
        by auto
      with True Some show ?thesis
        by (simp add: file_need_upload_iff lstat_of_def)
    next
      case False
      then have "node_check_for_upload_create depth self lfs rel f s = (Return (), ?s1)"
        using l_st reg assms(2) ls by (simp add: node_check_for_upload_create.simps Let_def)
      with False Some show ?thesis
        by (simp add: ops_since_def file_need_upload_iff lstat_of_def)
    qed
  qed
qed

text \<open>
  Claim C2 fails on the code when the server refuses the remote \<open>lstat\<close> with an error
  other than "not found": the refusal is caught and dropped. Below, no remote node exists
  at the path of the local regular file \<open>f\<close>; the node check returns normally, its only
  call is the refused \<open>lstat\<close>, and the file is not uploaded.
\<close>

theorem absent_file_not_uploaded:
  "lookup (lroot ex_local_f) [''f''] = Some (Reg (lmeta 100 1000))
   \<and> rlookup (tree ex_remote_denied) [''f''] = None
   \<and> node_check_for_upload_create 0 (ex_self False) ex_local_f [] ''f'' ex_remote_denied
       = (Return (), ex_remote_denied\<lparr>log := [Lstat [''f'']]\<rparr>)"
  by (simp add: ex_defs ex_local_f_def ex_remote_denied_def sftp_defs serve_defs local_defs
      node_check_for_upload_create.simps)

lemma create_update_symlink_ops:
  assumes "create_update_symlink d p s = (r, s')"
  shows "extends (\<lambda>c. c \<in> {Readlink p, Remove p, Symlink d p}) s s'"
  using assms unfolding create_update_symlink_def Let_def
  by (auto split: prod.splits outcome.splits if_splits
      dest!: sftp_extends(6,7,8)[where P="\<lambda>c. c \<in> {Readlink p, Remove p, Symlink d p}"])
     (blast intro: extends_trans)+

lemma create_update_symlink_effect:
  assumes ff: "faults s = (\<lambda>c. None)"
    and par: "parent_is_dir (tree s) p"
    and free: "case rlookup (tree s) p of None \<Rightarrow> True | Some (Lnk m t) \<Rightarrow> True | Some _ \<Rightarrow> False"
  shows "\<exists>m. rlookup (tree (snd (create_update_symlink d p s))) p = Some (Lnk m d)"
proof -
  from par have ne: "p \<noteq> []" and pd: "is_dir (rlookup (tree s) (butlast p))"
    by (simp_all add: parent_is_dir_iff)
  show ?thesis
  proof (cases "rlookup (tree s) p")
    case None
    then show ?thesis using ff par ne pd
      by (simp add: create_update_symlink_def sftp_readlink_def sftp_symlink_def serve_ok
          not_beyond_parent rlookup_ralter_same)
  next
    case (Some n)
    with free obtain m t where n: "n = Lnk m t" by (cases n) auto
    show ?thesis
    proof (cases "d = t")
      case True
      with Some n ff pd show ?thesis
        by (simp add: create_update_symlink_def sftp_readlink_def serve_ok not_beyond_parent)
    next
      case False
      with Some n ff par ne pd show ?thesis
        by (simp add: create_update_symlink_def sftp_readlink_def sftp_remove_def
            sftp_symlink_def serve_ok not_beyond_parent rlookup_ralter_same)
    qed
  qed
qed

lemma create_update_symlink_written:
  "symlink_written d p s (snd (create_update_symlink d p s))"
proof -
  obtain r s' where c: "create_update_symlink d p s = (r, s')"
    by (cases "create_update_symlink d p s")
  from create_update_symlink_ops[OF c] create_update_symlink_effect[of s p d] c
  show ?thesis
    by (auto simp: symlink_written_def dest: extends_ops_since)
qed

text \<open>
  Claim C3. For a local symbolic link that the creation pass visits: when its raw target is
  absolute and resolves inside the local root and the fix-symlinks policy is on, the link
  target written remotely is the remote root joined with what follows the local root in
  the resolved target; when the raw target is absolute and resolves outside the root, or is
  relative, the raw target is written as it is.
\<close>

theorem symlink_target_written:
  assumes "lookup (lroot lfs) (rel @ [f]) = Some (Lnk m local_link)"
    and "rel @ [f] \<notin> exclude_list self"
  shows "let is_absolute = startswith local_link ''/'';
             trailing = join (local_path self) '''';
             inside = prefix trailing (realpath lfs local_link);
             s' = snd (node_check_for_upload_create depth self lfs rel f s)
         in (is_absolute \<and> inside \<and> fix_symlinks self \<longrightarrow>
               symlink_written
                 (join (remote_path self) (drop (length trailing) (realpath lfs local_link)))
                 (rel @ [f]) s s')
          \<and> (is_absolute \<and> \<not> inside \<longrightarrow> symlink_written local_link (rel @ [f]) s s')
          \<and> (\<not> is_absolute \<longrightarrow> symlink_written local_link (rel @ [f]) s s')"
  using assms
  by (auto simp: node_check_for_upload_create.simps local_defs Let_def common2_prefix
      create_update_symlink_written)

theorem symlink_target_written_witness:
  "lookup (lroot ex_local) ([] @ [''in'']) = Some (Lnk (lmeta 0 0) ''/a/b/c'')
   \<and> [] @ [''in''] \<notin> exclude_list (ex_self True)
   \<and> startswith ''/a/b/c'' ''/''
   \<and> prefix (join (local_path (ex_self True)) '''') (realpath ex_local ''/a/b/c'')
   \<and> fix_symlinks (ex_self True)
   \<and> join (remote_path (ex_self True))
        (drop (length (join (local_path (ex_self True)) '''')) (realpath ex_local ''/a/b/c''))
      = ''/r/b/c''
   \<and> symlink_written ''/r/b/c'' [''in''] ex_remote
        (snd (node_check_for_upload_create 0 (ex_self True) ex_local [] ''in'' ex_remote))"
proof -
  have h1: "lookup (lroot ex_local) ([] @ [''in'']) = Some (Lnk (lmeta 0 0) ''/a/b/c'')"
    by (simp add: ex_defs)
  have h2: "[] @ [''in''] \<notin> exclude_list (ex_self True)" by (simp add: ex_defs)
  have h3: "startswith ''/a/b/c'' ''/''" by (simp add: startswith_def)
  have h4: "prefix (join (local_path (ex_self True)) '''') (realpath ex_local ''/a/b/c'')"
    by (simp add: ex_defs)
  have h5: "fix_symlinks (ex_self True)" by (simp add: ex_defs)
  have h6: "join (remote_path (ex_self True))
        (drop (length (join (local_path (ex_self True)) '''')) (realpath ex_local ''/a/b/c''))
      = ''/r/b/c''"
    by (simp add: ex_defs)
  from symlink_target_written[OF h1 h2, of 0 ex_remote] h3 h4 h5 h6
  have "symlink_written ''/r/b/c'' [''in''] ex_remote
        (snd (node_check_for_upload_create 0 (ex_self True) ex_local [] ''in'' ex_remote))"
    by (simp add: Let_def)
  with h1 h2 h3 h4 h5 h6 show ?thesis by blast
qed

lemma must_be_deleted_iff:
  "must_be_deleted lfs p r_st \<longleftrightarrow>
     (case lookup (lroot lfs) p of None \<Rightarrow> True | Some n \<Rightarrow> node_type n \<noteq> S_IFMT (st_mode r_st))"
  by (auto simp: must_be_deleted_def local_defs split: option.splits)

lemma sftp_remove_log: "sftp_remove p s = (r, s') \<Longrightarrow> log s' = log s @ [Remove p]"
  unfolding sftp_remove_def by (rule serve_log)

lemma sftp_remove_ok:
  "faults s (Remove p) = None \<Longrightarrow> \<not> beyond (tree s) p \<Longrightarrow>
   sftp_remove p s =
     (case rlookup (tree s) p of
        None \<Rightarrow> (Raise ENOENT, s\<lparr>log := log s @ [Remove p]\<rparr>)
      | Some (Dir m cs) \<Rightarrow> (Raise EFAILURE, s\<lparr>log := log s @ [Remove p]\<rparr>)
      | Some n \<Rightarrow> (Return (), s\<lparr>log := log s @ [Remove p], tree := ralter p (\<lambda>_. None) (tree s)\<rparr>))"
  by (simp add: sftp_remove_def serve_ok split: option.splits node.splits)

text \<open>
  In the loop of the deletion pass itself, a remote entry that is a symbolic link (by the
  non-following stat of the link itself) is never listed or descended into, whatever the
  listing reported for it: the calls for it are its \<open>lstat\<close> and, when it is to be deleted,
  one \<open>remove\<close> of the link itself. Whether it is deleted depends only on whether a local
  node exists at that path and is a symbolic link too; the deletion takes the one entry of
  the link out of the remote tree.
\<close>

lemma symlink_entry_not_followed:
  assumes "rlookup (tree s) (rel @ [n]) = Some (Lnk m t)"
    and "faults s (Lstat (rel @ [n])) = None"
  shows "let p = rel @ [n];
             s' = snd (check_for_deletion_entry (Suc depth) self lfs rel (n, remote_st) s);
             doomed = (case lookup (lroot lfs) p of Some (Lnk lm lt) \<Rightarrow> False | _ \<Rightarrow> True)
         in ops_since s s' = (if doomed then [Lstat p, Remove p] else [Lstat p])
          \<and> (faults s (Remove p) = None \<longrightarrow>
               tree s' = (if doomed then ralter p (\<lambda>_. None) (tree s) else tree s))"
proof -
  let ?p = "rel @ [n]"
  let ?s1 = "s\<lparr>log := log s @ [Lstat ?p]\<rparr>"
  let ?st = "lstat_of (Lnk m t)"
  have nb: "\<not> beyond (tree s) ?p" using assms(1) by (rule not_beyond_found)
  have ls: "sftp_lstat ?p s = (Return ?st, ?s1)"
    using assms nb by (simp add: sftp_lstat_ok)
  have lnk: "S_ISLNK (st_mode ?st)" "\<not> S_ISDIR (st_mode ?st)" by (simp_all add: local_defs)
  have d: "must_be_deleted lfs ?p ?st
      = (case lookup (lroot lfs) ?p of Some (Lnk lm lt) \<Rightarrow> False | _ \<Rightarrow> True)"
    by (auto simp: must_be_deleted_iff local_defs split: option.splits node.splits)
  show ?thesis
  proof (cases "must_be_deleted lfs ?p ?st")
    case False
    with ls lnk have "check_for_deletion_entry (Suc depth) self lfs rel (n, remote_st) s = (Return (), ?s1)"
      by simp
    with False d show ?thesis by (simp add: ops_since_def Let_def)
  next
    case True
    obtain r2 s2 where rm: "sftp_remove ?p ?s1 = (r2, s2)" by (cases "sftp_remove ?p ?s1")
    have l2: "log s2 = log s @ [Lstat ?p, Remove ?p]" using sftp_remove_log[OF rm] by simp
    have "snd (check_for_deletion_entry (Suc depth) self lfs rel (n, remote_st) s) = s2"
      using ls lnk True rm by (auto split: outcome.splits ioerror.splits)
    moreover have "faults s (Remove ?p) = None \<longrightarrow> tree s2 = ralter ?p (\<lambda>_. None) (tree s)"
      using rm assms(1) nb by (auto simp: sftp_remove_ok)
    ultimately show ?thesis using True d l2 by (simp add: ops_since_def Let_def)
  qed
qed

text \<open>
  Claim C7 fails on the code where the server's listing follows symbolic links. The
  recursive deletion of a directory takes the kind of each entry from the listing, with no
  \<open>lstat\<close> of its own. Below, the remote directory \<open>d\<close> has no local counterpart and is
  deleted; its entry \<open>l\<close> is a symbolic link that the listing reports as a directory. The
  deletion lists \<open>d/l\<close>, removes the file \<open>x\<close> that the link's target holds outside the
  synchronized tree, and fails at the \<open>rmdir\<close> of the link, so that the run raises with the
  link and \<open>d\<close> still there.
\<close>

theorem symlink_followed_on_delete:
  "rlookup (tree ex_remote_link) [''d'', ''l''] = Some (Lnk (rmeta 0 0) ''/srv/other'')
   \<and> lookup (lroot ex_local_f) [''d''] = None
   \<and> run 4 (ex_self False) ex_local_f ex_remote_link
       = (Raise ENOENT,
          ex_remote_link\<lparr>log := [Listdir [], Lstat [''f''], Lstat [''d''], Listdir [''d''],
             Listdir [''d'', ''l''], Remove [''d'', ''l'', ''x''], Rmdir [''d'', ''l'']]\<rparr>)"
  by (simp add: ex_defs ex_local_f_def ex_remote_link_def run_def eval_nat_numeral sftp_defs
      serve_defs local_defs must_be_deleted_def node_check_for_upload_create.simps)

lemma sftp_listdir_attr_not_dir:
  assumes "\<forall>m cs. tree s \<noteq> Some (Dir m cs)"
  shows "\<exists>e. sftp_listdir_attr [] s = (Raise e, s\<lparr>log := log s @ [Listdir []]\<rparr>)"
proof (cases "faults s (Listdir [])")
  case None
  with assms show ?thesis
    by (cases "tree s") (auto simp: sftp_listdir_attr_def serve_ok split: node.splits)
next
  case (Some e)
  then show ?thesis by (simp add: sftp_listdir_attr_def serve_fault)
qed

lemma run_extends:
  assumes "run depth self lfs s = (r, s')"
  shows "extends (\<lambda>c. c = Listdir [] \<or> op_path c \<noteq> []) s s'"
proof -
  let ?P = "\<lambda>c. c = Listdir [] \<or> op_path c \<noteq> []"
  obtain r1 s1 where d: "check_for_deletion depth self lfs [] s = (r1, s1)"
    by (cases "check_for_deletion depth self lfs [] s")
  have e1: "extends ?P s s1"
    by (rule check_for_deletion_extends[OF d]) auto
  show ?thesis
  proof (cases r1)
    case (Return u)
    with assms d have "check_for_upload_create depth self lfs [] s1 = (r, s')"
      by (simp add: run_def)
    then have "extends ?P s1 s'"
      by (rule check_for_upload_create_extends) (auto simp: visible_def)
    with e1 show ?thesis by (rule extends_trans)
  next
    case (Raise e)
    with assms d e1 show ?thesis by (simp add: run_def)
  next
    case Struct_error
    with assms d e1 show ?thesis by (simp add: run_def)
  next
    case Exhausted
    with assms d e1 show ?thesis by (simp add: run_def)
  qed
qed

text \<open>
  Claim C10. A run needs the remote root to be a directory already. It begins by listing
  the remote root; when no directory is there, the listing fails and the run raises with
  the remote tree as it was, the failed listing being its only call. No run ever issues a
  call on the root path other than that listing (in particular no \<open>mkdir\<close> of the root: what
  the creation pass creates is strictly below it), and an absent root is still absent
  after the run.
\<close>

theorem remote_root_required:
  "((\<forall>m cs. tree s \<noteq> Some (Dir m cs)) \<longrightarrow>
      (\<exists>e. run (Suc depth) self lfs s = (Raise e, s\<lparr>log := log s @ [Listdir []]\<rparr>)))
   \<and> (\<forall>c\<in>set (ops_since s (snd (run depth self lfs s))). c = Listdir [] \<or> op_path c \<noteq> [])
   \<and> (tree s = None \<longrightarrow> tree (snd (run depth self lfs s)) = None)"
proof (intro conjI impI)
  assume nd: "\<forall>m cs. tree s \<noteq> Some (Dir m cs)"
  from sftp_listdir_attr_not_dir[OF nd]
  show "\<exists>e. run (Suc depth) self lfs s = (Raise e, s\<lparr>log := log s @ [Listdir []]\<rparr>)"
    by (auto simp: run_def)
next
  obtain r s' where rn: "run depth self lfs s = (r, s')" by (cases "run depth self lfs s")
  from run_extends[OF rn]
  show "\<forall>c\<in>set (ops_since s (snd (run depth self lfs s))). c = Listdir [] \<or> op_path c \<noteq> []"
    by (auto simp: rn dest: extends_ops_since)
next
  assume n: "tree s = None"
  show "tree (snd (run depth self lfs s)) = None"
  proof (cases depth)
    case 0
    with n show ?thesis by (simp add: run_def)
  next
    case (Suc d)
    from n have "\<forall>m cs. tree s \<noteq> Some (Dir m cs)" by simp
    from sftp_listdir_attr_not_dir[OF this] Suc n show ?thesis
      by (auto simp: run_def)
  qed
qed

theorem remote_root_required_witness:
  "(\<forall>m cs. tree ex_remote_missing \<noteq> Some (Dir m cs))
   \<and> run (Suc 0) (ex_self False) ex_local ex_remote_missing
       = (Raise ENOENT, ex_remote_missing\<lparr>log := [Listdir []]\<rparr>)
   \<and> tree (snd (run (Suc 0) (ex_self False) ex_local ex_remote_missing)) = None"
proof -
  have h: "\<forall>m cs. tree ex_remote_missing \<noteq> Some (Dir m cs)"
    by (simp add: ex_remote_missing_def)
  have t: "tree ex_remote_missing = None" by (simp add: ex_remote_missing_def)
  from remote_root_required[of ex_remote_missing 0 "ex_self False" ex_local] h t
  obtain e where e: "run (Suc 0) (ex_self False) ex_local ex_remote_missing
       = (Raise e, ex_remote_missing\<lparr>log := log ex_remote_missing @ [Listdir []]\<rparr>)"
    and n: "tree (snd (run (Suc 0) (ex_self False) ex_local ex_remote_missing)) = None"
    by auto
  have "run (Suc 0) (ex_self False) ex_local ex_remote_missing
       = (Raise ENOENT, ex_remote_missing\<lparr>log := [Listdir []]\<rparr>)"
    by (simp add: run_def sftp_listdir_attr_def serve_defs ex_remote_missing_def)
  with h n show ?thesis by simp
qed

lemma check_for_deletion_entry_self:
  assumes "\<And>rel s. check_for_deletion d self lfs rel s = check_for_deletion d self' lfs rel s"
  shows "check_for_deletion_entry d self lfs rel e s = check_for_deletion_entry d self' lfs rel e s"
  using assms by (cases e) (simp split: prod.splits outcome.splits)

lemma check_for_deletion_self:
  "check_for_deletion d self lfs rel s = check_for_deletion d self' lfs rel s"
proof (induction d arbitrary: rel s)
  case 0
  show ?case by simp
next
  case (Suc d)
  have eq: "check_for_deletion_entry d self lfs rel = check_for_deletion_entry d self' lfs rel"
    by (intro ext check_for_deletion_entry_self Suc.IH)
  show ?case unfolding check_for_deletion.simps eq ..
qed

text \<open>
  Claim C5 as stated does not hold: the deletion pass deletes the remote counterpart of an
  excluded local node. Here the local regular file \<open>x\<close> is excluded and the remote \<open>x\<close> is
  a directory; the run empties and removes it.
\<close>

theorem excluded_still_deleted:
  "[''x''] \<in> exclude_list (ex_self False)
   \<and> lookup (lroot ex_local_x) [''x''] = Some (Reg (lmeta 5 20))
   \<and> rlookup (tree ex_remote_x) [''x''] = Some (Dir (rmeta 0 0) [(''y'', Reg (rmeta 1 1))])
   \<and> run 3 (ex_self False) ex_local_x ex_remote_x
       = (Return (),
          ex_remote_x\<lparr>tree := Some (Dir (rmeta 0 0) []),
             log := [Listdir [], Lstat [''x''], Listdir [''x''], Remove [''x'', ''y''], Rmdir [''x'']]\<rparr>)"
  by (simp add: ex_defs ex_local_x_def ex_remote_x_def run_def numeral_3_eq_3 sftp_defs serve_defs
      local_defs must_be_deleted_def node_check_for_upload_create.simps)

text \<open>
  Claim C5, as the code has it. For a local path in the exclusion set, the creation pass
  issues no remote call on that path or on any path below it: the node check of an excluded
  node returns at once with the remote side untouched, and nothing below it is visited.
  The deletion pass does not read the exclusion set: it behaves the same whatever the set
  is, so the remote counterpart of an excluded node is deleted by the usual rule.
\<close>

theorem excluded_not_created:
  assumes "p \<in> exclude_list self" and "p \<noteq> []"
  shows "(\<forall>c\<in>set (ops_since s (snd (check_for_upload_create depth self lfs [] s))).
            \<not> prefix p (op_path c))
       \<and> snd (node_check_for_upload_create depth self lfs (butlast p) (last p) s) = s
       \<and> (\<forall>X. check_for_deletion depth (self\<lparr>exclude_list := X\<rparr>) lfs rel s
               = check_for_deletion depth self lfs rel s)"
proof (intro conjI)
  obtain r s' where c: "check_for_upload_create depth self lfs [] s = (r, s')"
    by (cases "check_for_upload_create depth self lfs [] s")
  have "extends (\<lambda>c. \<not> prefix p (op_path c)) s s'"
  proof (rule check_for_upload_create_extends[OF c])
    fix c
    assume v: "visible self [] (op_path c)"
    show "\<not> prefix p (op_path c)"
    proof
      assume "prefix p (op_path c)"
      with v assms(2) have "p \<notin> exclude_list self"
        by (auto simp: visible_def strict_prefix_def)
      with assms(1) show False by simp
    qed
  qed
  then show "\<forall>c\<in>set (ops_since s (snd (check_for_upload_create depth self lfs [] s))).
            \<not> prefix p (op_path c)"
    by (auto simp: c dest: extends_ops_since)
next
  from assms have "butlast p @ [last p] \<in> exclude_list self" by simp
  then show "snd (node_check_for_upload_create depth self lfs (butlast p) (last p) s) = s"
    by (simp add: node_check_for_upload_create.simps split: option.splits)
next
  show "\<forall>X. check_for_deletion depth (self\<lparr>exclude_list := X\<rparr>) lfs rel s
               = check_for_deletion depth self lfs rel s"
    by (intro allI) (rule check_for_deletion_self)
qed

theorem excluded_not_created_witness:
  "[''x''] \<in> exclude_list (ex_self False) \<and> [''x''] \<noteq> []
   \<and> Lstat [''x''] \<notin> set (ops_since ex_remote
          (snd (check_for_upload_create 2 (ex_self False) ex_local [] ex_remote)))
   \<and> Put [''x''] [''x''] \<notin> set (ops_since ex_remote
          (snd (check_for_upload_create 2 (ex_self False) ex_local [] ex_remote)))
   \<and> snd (node_check_for_upload_create 2 (ex_self False) ex_local [] ''x'' ex_remote) = ex_remote"
proof -
  have h1: "[''x''] \<in> exclude_list (ex_self False)" by (simp add: ex_defs)
  have h2: "[''x''] \<noteq> ([] :: path)" by simp
  from excluded_not_created[OF h1 h2, of ex_remote 2 ex_local] h1 h2 show ?thesis by fastforce
qed

text \<open>
  Claim C6 fails on the code in the regular-file branch: a remote \<open>lstat\<close> refused with
  \<open>EACCES\<close> is caught and dropped. The run below returns normally; its only calls are the
  listing of the root and the refused \<open>lstat\<close>, and the file is not uploaded.
\<close>

theorem stat_failure_swallowed:
  "run 1 (ex_self False) ex_local_f ex_remote_denied
     = (Return (), ex_remote_denied\<lparr>log := [Listdir [], Lstat [''f'']]\<rparr>)"
  by (simp add: ex_defs ex_local_f_def ex_remote_denied_def run_def sftp_defs serve_defs local_defs
      node_check_for_upload_create.simps)

section \<open>Recursive deletion\<close>

lemma sftp_listdir_attr_ok:
  "faults s (Listdir p) = None \<Longrightarrow> rlookup (tree s) p = Some (Dir m cs) \<Longrightarrow>
   sftp_listdir_attr p s
     = (Return (map (\<lambda>(n, c). (n, listed_as s c)) cs), s\<lparr>log := log s @ [Listdir p]\<rparr>)"
  by (simp add: sftp_listdir_attr_def serve_ok)

lemma sftp_rmdir_ok:
  "faults s (Rmdir p) = None \<Longrightarrow> rlookup (tree s) p = Some (Dir m []) \<Longrightarrow>
   sftp_rmdir p s = (Return (), s\<lparr>log := log s @ [Rmdir p], tree := ralter p (\<lambda>_. None) (tree s)\<rparr>)"
  by (simp add: sftp_rmdir_def serve_ok)

lemma no_link_as_dir_simps [simp]:
  "no_link_as_dir (s\<lparr>log := l\<rparr>) = no_link_as_dir s"
  "no_link_as_dir (s\<lparr>tree := t\<rparr>) = no_link_as_dir s"
  by (simp_all add: no_link_as_dir_def)

lemma listed_as_log [simp]:
  "listed_as (s\<lparr>log := l\<rparr>) = listed_as s" "listed_as (s\<lparr>tree := t\<rparr>) = listed_as s"
  by (rule ext, simp add: listed_as_def split: node.splits)+

lemma listed_as_plain [simp]: "node_type c \<noteq> S_IFLNK \<Longrightarrow> listed_as s c = lstat_of c"
  by (cases c) (simp_all add: listed_as_def)

lemma listed_as_dir:
  "no_link_as_dir s \<Longrightarrow> S_ISDIR (st_mode (listed_as s c)) = (node_type c = S_IFDIR)"
  by (cases c) (auto simp: listed_as_def no_link_as_dir_def split: option.splits)

lemma remote_delete_cong:
  "S_ISDIR (st_mode st) = S_ISDIR (st_mode st') \<Longrightarrow> remote_delete d p st s = remote_delete d p st' s"
  by (cases d) simp_all

lemma remote_delete_listed:
  assumes "no_link_as_dir s0"
  shows "for_each (\<lambda>(filename, item). remote_delete d (p @ [filename]) item)
           (map (\<lambda>(n, c). (n, listed_as s0 c)) cs) s
       = for_each (\<lambda>(filename, item). remote_delete d (p @ [filename]) item)
           (map (\<lambda>(n, c). (n, lstat_of c)) cs) s"
proof (induction cs arbitrary: s)
  case Nil
  show ?case by simp
next
  case (Cons nc cs)
  obtain k c where nc: "nc = (k, c)" by (cases nc)
  have "remote_delete d (p @ [k]) (listed_as s0 c) s = remote_delete d (p @ [k]) (lstat_of c) s"
    by (rule remote_delete_cong) (simp add: listed_as_dir[OF assms])
  with Cons.IH nc show ?case by (simp split: prod.splits outcome.splits)
qed

lemma remote_delete_loop:
  assumes IH: "\<And>n p s r s'. faults s = (\<lambda>c. None) \<Longrightarrow> rlookup (tree s) p = Some n \<Longrightarrow> p \<noteq> [] \<Longrightarrow>
      wf_node n \<Longrightarrow> remote_delete d p (lstat_of n) s = (r, s') \<Longrightarrow> no_link_as_dir s \<Longrightarrow>
      (if height n \<le> d
       then r = Return () \<and> s' = s\<lparr>log := log s @ postorder p n, tree := ralter p (\<lambda>_. None) (tree s)\<rparr>
       else r = Exhausted)"
    and ne: "p \<noteq> []"
  shows "faults s = (\<lambda>c. None) \<Longrightarrow> rlookup (tree s) p = Some (Dir m cs) \<Longrightarrow>
     distinct (map fst cs) \<Longrightarrow> list_all (\<lambda>nc. wf_node (snd nc)) cs \<Longrightarrow>
     for_each (\<lambda>(filename, item). remote_delete d (p @ [filename]) item)
       (map (\<lambda>(n, c). (n, lstat_of c)) cs) s = (r, s') \<Longrightarrow> no_link_as_dir s \<Longrightarrow>
     (if (\<forall>nc\<in>set cs. height (snd nc) \<le> d)
      then r = Return () \<and>
           s' = s\<lparr>log := log s @ concat (map (\<lambda>nc. postorder (p @ [fst nc]) (snd nc)) cs),
                  tree := ralter p (\<lambda>_. Some (Dir m [])) (tree s)\<rparr>
      else r = Exhausted)"
proof (induction cs arbitrary: s)
  case Nil
  then show ?case by (simp add: ralter_same_value)
next
  case (Cons nc rest)
  obtain k c where nc: "nc = (k, c)" by (cases nc)
  from Cons.prems(3) nc have knot: "k \<notin> fst ` set rest" and drest: "distinct (map fst rest)" by auto
  from Cons.prems(4) nc have wfc: "wf_node c" and wfrest: "list_all (\<lambda>nc. wf_node (snd nc)) rest"
    by auto
  have lk: "rlookup (tree s) (p @ [k]) = Some c"
    using Cons.prems(2) nc by (simp add: rlookup_snoc)
  obtain r1 s1 where rd: "remote_delete d (p @ [k]) (lstat_of c) s = (r1, s1)"
    by (cases "remote_delete d (p @ [k]) (lstat_of c) s")
  have step: "if height c \<le> d
       then r1 = Return () \<and> s1 = s\<lparr>log := log s @ postorder (p @ [k]) c,
                                      tree := ralter (p @ [k]) (\<lambda>_. None) (tree s)\<rparr>
       else r1 = Exhausted"
    by (rule IH[OF Cons.prems(1) lk _ wfc rd Cons.prems(6)]) simp
  show ?case
  proof (cases "height c \<le> d")
    case False
    with step have "r1 = Exhausted" by simp
    with Cons.prems(5) nc rd False show ?thesis by auto
  next
    case True
    with step have r1: "r1 = Return ()"
      and s1: "s1 = s\<lparr>log := log s @ postorder (p @ [k]) c,
                       tree := ralter (p @ [k]) (\<lambda>_. None) (tree s)\<rparr>" by simp_all
    have ff1: "faults s1 = (\<lambda>c. None)" using s1 Cons.prems(1) by simp
    have "tree s = ralter p (\<lambda>_. Some (Dir m ((k, c) # rest))) (tree s)"
      using Cons.prems(2) nc by (simp add: ralter_same_value)
    then have "tree s1 = ralter (p @ [k]) (\<lambda>_. None) (ralter p (\<lambda>_. Some (Dir m ((k, c) # rest))) (tree s))"
      using s1 by simp
    also have "\<dots> = ralter p (\<lambda>_. Some (Dir m rest)) (tree s)"
      using knot by (simp add: ralter_below_set)
    finally have ts1: "tree s1 = ralter p (\<lambda>_. Some (Dir m rest)) (tree s)" .
    have pd: "is_dir (rlookup (tree s) (butlast p))"
      using Cons.prems(2) ne by (rule rlookup_parent_dir)
    have lp1: "rlookup (tree s1) p = Some (Dir m rest)"
      using ts1 ne pd by (simp add: rlookup_ralter_same)
    from Cons.prems(5) nc rd r1
    have loop: "for_each (\<lambda>(filename, item). remote_delete d (p @ [filename]) item)
       (map (\<lambda>(n, c). (n, lstat_of c)) rest) s1 = (r, s')" by simp
    have tne: "tree s \<noteq> None" using Cons.prems(2) by (cases "tree s") auto
    have fin: "ralter p (\<lambda>_. Some (Dir m [])) (tree s1) = ralter p (\<lambda>_. Some (Dir m [])) (tree s)"
      using ts1 tne by (simp add: ralter_after_set)
    have nl1: "no_link_as_dir s1" using s1 Cons.prems(6) by simp
    from Cons.IH[OF ff1 lp1 drest wfrest loop nl1] True nc fin s1 show ?thesis
      by auto
  qed
qed

lemma remote_delete_result:
  "faults s = (\<lambda>c. None) \<Longrightarrow> rlookup (tree s) p = Some n \<Longrightarrow> p \<noteq> [] \<Longrightarrow> wf_node n \<Longrightarrow>
   remote_delete d p (lstat_of n) s = (r, s') \<Longrightarrow> no_link_as_dir s \<Longrightarrow>
   (if height n \<le> d
    then r = Return () \<and> s' = s\<lparr>log := log s @ postorder p n, tree := ralter p (\<lambda>_. None) (tree s)\<rparr>
    else r = Exhausted)"
proof (induction d arbitrary: n p s r s')
  case 0
  then show ?case by simp
next
  case (Suc d)
  show ?case
  proof (cases n)
    case (Dir m cs)
    let ?s1 = "s\<lparr>log := log s @ [Listdir p]\<rparr>"
    have isdir: "S_ISDIR (st_mode (lstat_of n))" using Dir by (simp add: local_defs)
    have "sftp_listdir_attr p s = (Return (map (\<lambda>(n, c). (n, listed_as s c)) cs), ?s1)"
      using Suc.prems(1,2) Dir by (simp add: sftp_listdir_attr_ok)
    then have ls: "\<And>u. (case sftp_listdir_attr p s of
          (Return items, s1) \<Rightarrow>
            (case for_each (\<lambda>(filename, item). remote_delete d (p @ [filename]) item) items s1 of
               (Return u, s2) \<Rightarrow> sftp_rmdir p s2
             | r \<Rightarrow> r)
        | (Raise e, s1) \<Rightarrow> (Raise e, s1)
        | (Struct_error, s1) \<Rightarrow> (Struct_error, s1)
        | (Exhausted, s1) \<Rightarrow> (Exhausted, s1))
      = (case for_each (\<lambda>(filename, item). remote_delete d (p @ [filename]) item)
               (map (\<lambda>(n, c). (n, lstat_of c)) cs) ?s1 of
           (Return u, s2) \<Rightarrow> sftp_rmdir p s2
         | r \<Rightarrow> r)"
      by (simp add: remote_delete_listed[OF Suc.prems(6)])
    obtain r2 s2 where loop: "for_each (\<lambda>(filename, item). remote_delete d (p @ [filename]) item)
       (map (\<lambda>(n, c). (n, lstat_of c)) cs) ?s1 = (r2, s2)"
      by (cases "for_each (\<lambda>(filename, item). remote_delete d (p @ [filename]) item)
       (map (\<lambda>(n, c). (n, lstat_of c)) cs) ?s1")
    have res: "if (\<forall>nc\<in>set cs. height (snd nc) \<le> d)
      then r2 = Return () \<and>
           s2 = ?s1\<lparr>log := log ?s1 @ concat (map (\<lambda>nc. postorder (p @ [fst nc]) (snd nc)) cs),
                  tree := ralter p (\<lambda>_. Some (Dir m [])) (tree ?s1)\<rparr>
      else r2 = Exhausted"
      using Suc.prems(1,2,4) Dir
      using Suc.prems(6)
      by (intro remote_delete_loop[OF Suc.IH Suc.prems(3) _ _ _ _ loop]) simp_all
    show ?thesis
    proof (cases "\<forall>nc\<in>set cs. height (snd nc) \<le> d")
      case False
      with res have "r2 = Exhausted" by simp
      with Suc.prems(5) isdir ls loop False Dir show ?thesis
        by (simp add: height_Dir_le del: height.simps)
    next
      case True
      with res have r2: "r2 = Return ()"
        and s2: "s2 = s\<lparr>log := log s @ Listdir p # concat (map (\<lambda>nc. postorder (p @ [fst nc]) (snd nc)) cs),
                  tree := ralter p (\<lambda>_. Some (Dir m [])) (tree s)\<rparr>" by simp_all
      have pd: "is_dir (rlookup (tree s) (butlast p))"
        using Suc.prems(2,3) by (rule rlookup_parent_dir)
      have lp2: "rlookup (tree s2) p = Some (Dir m [])"
        using s2 Suc.prems(3) pd by (simp add: rlookup_ralter_same)
      have ff2: "faults s2 (Rmdir p) = None" using s2 Suc.prems(1) by simp
      have tne: "tree s \<noteq> None" using Suc.prems(2) by (cases "tree s") auto
      from Suc.prems(5) isdir ls loop r2 have "sftp_rmdir p s2 = (r, s')" by simp
      with sftp_rmdir_ok[OF ff2 lp2] have "r = Return ()"
        and "s' = s2\<lparr>log := log s2 @ [Rmdir p], tree := ralter p (\<lambda>_. None) (tree s2)\<rparr>"
        by simp_all
      with s2 tne True Dir Suc.prems(3) show ?thesis
        by (simp add: height_Dir_le ralter_after_set del: height.simps)
    qed
  next
    case (Lnk m t)
    with Suc.prems show ?thesis by (auto simp: local_defs sftp_remove_ok not_beyond_found)
  next
    case (Reg m)
    with Suc.prems show ?thesis by (auto simp: local_defs sftp_remove_ok not_beyond_found)
  next
    case (Special k m)
    with Suc.prems show ?thesis by (auto simp: local_defs sftp_remove_ok not_beyond_found)
  qed
qed

lemma postorder_paths: "c \<in> set (postorder p n) \<Longrightarrow> prefix p (op_path c)"
proof (induction p n arbitrary: c rule: postorder.induct)
  case (1 p m cs)
  from "1.prems" consider "c = Listdir p" | "c = Rmdir p"
    | nc where "nc \<in> set cs" "c \<in> set (postorder (p @ [fst nc]) (snd nc))"
    by auto
  then show ?case
  proof cases
    case 3
    from "1.IH"[OF 3] show ?thesis by (rule append_prefixD)
  qed simp_all
qed simp_all

lemma rmdir_last_append:
  "rmdir_last (xs @ ys) \<longleftrightarrow>
     rmdir_last xs \<and> rmdir_last ys \<and>
     (\<forall>q. Rmdir q \<in> set xs \<longrightarrow> (\<forall>c\<in>set ys. \<not> prefix q (op_path c)))"
  by (induction xs) (auto simp: list_all_iff split: op.splits)

lemma snoc_prefixes_same:
  assumes "prefix (p @ [k]) q" and "prefix (p @ [k']) q"
  shows "k = k'"
  using assms by (auto simp: prefix_def append_eq_append_conv2 Cons_eq_append_conv)

lemma rmdir_last_children:
  assumes "distinct (map fst cs)"
    and "\<And>nc. nc \<in> set cs \<Longrightarrow> rmdir_last (postorder (p @ [fst nc]) (snd nc))"
  shows "rmdir_last (concat (map (\<lambda>nc. postorder (p @ [fst nc]) (snd nc)) cs))"
  using assms
proof (induction cs)
  case Nil
  then show ?case by simp
next
  case (Cons nc cs)
  have cross: "\<not> prefix q (op_path c)"
    if q: "Rmdir q \<in> set (postorder (p @ [fst nc]) (snd nc))"
      and c: "c \<in> set (concat (map (\<lambda>nc. postorder (p @ [fst nc]) (snd nc)) cs))" for q c
  proof
    assume pq: "prefix q (op_path c)"
    from c obtain nc' where nc': "nc' \<in> set cs" "c \<in> set (postorder (p @ [fst nc']) (snd nc'))"
      by auto
    from postorder_paths[OF q] have "prefix (p @ [fst nc]) q" by simp
    with pq have "prefix (p @ [fst nc]) (op_path c)" by (rule prefix_order.trans[rotated])
    moreover from postorder_paths[OF nc'(2)] have "prefix (p @ [fst nc']) (op_path c)" .
    ultimately have "fst nc = fst nc'" by (rule snoc_prefixes_same)
    with nc'(1) Cons.prems(1) show False by auto
  qed
  from Cons show ?case
    by (auto simp: rmdir_last_append cross)
qed

lemma rmdir_last_postorder: "wf_node n \<Longrightarrow> rmdir_last (postorder p n)"
proof (induction p n rule: postorder.induct)
  case (1 p m cs)
  have ch: "rmdir_last (concat (map (\<lambda>nc. postorder (p @ [fst nc]) (snd nc)) cs))"
    using "1.prems" "1.IH" by (intro rmdir_last_children) (auto simp: list_all_iff)
  have "\<not> prefix q p" if "Rmdir q \<in> set (postorder (p @ [fst nc]) (snd nc))"
    for q and nc :: "string \<times> 'a node"
  proof
    assume "prefix q p"
    moreover from postorder_paths[OF that] have "prefix (p @ [fst nc]) q" by simp
    ultimately have "prefix (p @ [fst nc]) p" by (rule prefix_order.trans[rotated])
    then show False by (auto simp: prefix_def)
  qed
  with ch show ?case by (auto simp: rmdir_last_append)
qed simp_all

text \<open>
  Claim C8. Recursive deletion is post-order. On a server that refuses nothing and whose
  listing reports no symbolic link as a directory, deleting a well-formed remote node with
  enough recursion depth returns normally; its calls are the post-order of the node (every
  entry of a directory is deleted before the \<open>rmdir\<close> of the directory, and no call at or
  below a directory follows its \<open>rmdir\<close>), and the node is gone from the tree. As \<open>rmdir\<close>
  of a directory that still has an entry fails, every directory was empty when it was
  removed.
\<close>

theorem directory_removed_last:
  assumes "faults s = (\<lambda>c. None)"
    and "rlookup (tree s) p = Some n" and "p \<noteq> []"
    and "wf_node n" and "height n \<le> depth"
    and "no_link_as_dir s"
  shows "remote_delete depth p (lstat_of n) s
           = (Return (), s\<lparr>log := log s @ postorder p n, tree := ralter p (\<lambda>_. None) (tree s)\<rparr>)
       \<and> rmdir_last (postorder p n)"
proof -
  obtain r s' where rd: "remote_delete depth p (lstat_of n) s = (r, s')"
    by (cases "remote_delete depth p (lstat_of n) s")
  from remote_delete_result[OF assms(1-4) rd assms(6)] assms(5) rd rmdir_last_postorder[OF assms(4)]
  show ?thesis by simp
qed

theorem directory_removed_last_witness:
  "faults ex_remote_x = (\<lambda>c. None)
   \<and> rlookup (tree ex_remote_x) [''x''] = Some (Dir (rmeta 0 0) [(''y'', Reg (rmeta 1 1))])
   \<and> wf_node (Dir (rmeta 0 0) [(''y'', Reg (rmeta 1 1 :: int meta))])
   \<and> height (Dir (rmeta 0 0) [(''y'', Reg (rmeta 1 1 :: int meta))]) \<le> 2
   \<and> no_link_as_dir ex_remote_x
   \<and> remote_delete 2 [''x''] (lstat_of (Dir (rmeta 0 0) [(''y'', Reg (rmeta 1 1))])) ex_remote_x
       = (Return (), ex_remote_x\<lparr>log := [Listdir [''x''], Remove [''x'', ''y''], Rmdir [''x'']],
                                  tree := Some (Dir (rmeta 0 0) [])\<rparr>)"
proof -
  let ?n = "Dir (rmeta 0 0) [(''y'', Reg (rmeta 1 1 :: int meta))]"
  have h1: "faults ex_remote_x = (\<lambda>c. None)" by (simp add: ex_remote_x_def)
  have h2: "rlookup (tree ex_remote_x) [''x''] = Some ?n" by (simp add: ex_remote_x_def)
  have h3: "[''x''] \<noteq> ([] :: path)" by simp
  have h4: "wf_node ?n" by simp
  have h5: "height ?n \<le> 2" by simp
  have h6: "no_link_as_dir ex_remote_x" by (simp add: ex_remote_x_def no_link_as_dir_def)
  from directory_removed_last[OF h1 h2 h3 h4 h5 h6]
  have "remote_delete 2 [''x''] (lstat_of ?n) ex_remote_x
       = (Return (), ex_remote_x\<lparr>log := [Listdir [''x''], Remove [''x'', ''y''], Rmdir [''x'']],
                                  tree := Some (Dir (rmeta 0 0) [])\<rparr>)"
    by (simp add: ex_remote_x_def)
  with h1 h2 h4 h5 h6 show ?thesis by blast
qed

section \<open>The deletion decision\<close>

text \<open>
  Claim C1 as stated does not hold for two special files of different kinds: the local
  entry is a FIFO and the remote entry a socket, both of the type "other", and the remote
  entry is deleted.
\<close>

theorem other_kinds_differ:
  "lookup (lroot ex_local_fifo) [''p''] = Some (Special S_IFIFO (lmeta 0 0))
   \<and> rlookup (tree ex_remote_sock) [''p''] = Some (Special S_IFSOCK (rmeta 0 0))
   \<and> spec_node_type (node_type (Special S_IFIFO (lmeta 0 0)))
       = spec_node_type (node_type (Special S_IFSOCK (rmeta 0 0)))
   \<and> check_for_deletion_entry 1 (ex_self False) ex_local_fifo []
        (''p'', lstat_of (Special S_IFSOCK (rmeta 0 0))) ex_remote_sock
       = (Return (), ex_remote_sock\<lparr>log := [Lstat [''p''], Remove [''p'']],
                                     tree := Some (Dir (rmeta 0 0) [])\<rparr>)"
  by (simp add: ex_local_fifo_def ex_remote_sock_def sftp_defs serve_defs local_defs
      must_be_deleted_def)

text \<open>
  Claim C1, as the code has it. For an entry of a remote directory that the deletion pass
  visits, with the attributes that the listing reports for it (on a server that refuses
  nothing and whose listing reports no symbolic link as a directory, with recursion depth
  for the entry's subtree), the entry is gone from the remote tree afterwards if and only
  if no local node exists at its path or the local node's file type, as the file-format
  field of the mode gives it (directory, symlink, regular file, or one of the special
  kinds, each a type of its own), differs from the remote entry's.
\<close>

theorem deletion_decision:
  assumes "faults s = (\<lambda>c. None)"
    and "rlookup (tree s) (rel @ [n]) = Some rn"
    and "wf_node rn" and "height rn \<le> depth"
    and "no_link_as_dir s"
  shows "rlookup (tree (snd (check_for_deletion_entry depth self lfs rel (n, listed_as s rn) s))) (rel @ [n]) = None
     \<longleftrightarrow> (case lookup (lroot lfs) (rel @ [n]) of
            None \<Rightarrow> True
          | Some l \<Rightarrow> node_type l \<noteq> node_type rn)"
proof -
  let ?p = "rel @ [n]"
  let ?st = "lstat_of rn"
  let ?s1 = "s\<lparr>log := log s @ [Lstat ?p]\<rparr>"
  have ls: "sftp_lstat ?p s = (Return ?st, ?s1)"
    using assms(1,2) by (simp add: sftp_lstat_ok)
  have must: "must_be_deleted lfs ?p ?st
      \<longleftrightarrow> (case lookup (lroot lfs) ?p of None \<Rightarrow> True | Some l \<Rightarrow> node_type l \<noteq> node_type rn)"
    by (simp add: must_be_deleted_iff local_defs split: option.splits)
  have eq: "check_for_deletion_entry depth self lfs rel (n, listed_as s rn) s
      = check_for_deletion_entry depth self lfs rel (n, ?st) s"
  proof (cases "node_type rn = S_IFLNK")
    case True
    with ls show ?thesis by simp
  next
    case False
    then show ?thesis by simp
  qed
  have "rlookup (tree (snd (check_for_deletion_entry depth self lfs rel (n, ?st) s))) ?p = None
     \<longleftrightarrow> (case lookup (lroot lfs) ?p of
            None \<Rightarrow> True
          | Some l \<Rightarrow> node_type l \<noteq> node_type rn)"
  proof (cases "must_be_deleted lfs ?p ?st")
    case True
    obtain r s' where rd: "remote_delete depth ?p ?st ?s1 = (r, s')"
      by (cases "remote_delete depth ?p ?st ?s1")
    have "tree s' = ralter ?p (\<lambda>_. None) (tree s)"
      using remote_delete_result[OF _ _ _ assms(3) rd] assms by simp
    then have "rlookup (tree s') ?p = None" by (simp add: rlookup_ralter_same)
    moreover have "check_for_deletion_entry depth self lfs rel (n, ?st) s = (r, s')"
      using ls True rd by simp
    ultimately show ?thesis using True must by simp
  next
    case False
    obtain r s' where e: "check_for_deletion_entry depth self lfs rel (n, ?st) s = (r, s')"
      by (cases "check_for_deletion_entry depth self lfs rel (n, ?st) s")
    from e ls False consider (rec) "check_for_deletion depth self lfs ?p ?s1 = (r, s')" | (skip) "s' = ?s1"
      by (auto split: if_splits)
    then have "obs (tree s') ?p = obs (tree s) ?p"
    proof cases
      case rec
      have "extends (\<lambda>c. c = Listdir ?p \<or> strict_prefix ?p (op_path c)) ?s1 s'"
        by (rule check_for_deletion_extends[OF rec]) simp
      then have "obs (tree s') ?p = obs (tree ?s1) ?p"
        by (rule extends_obs) (auto simp: strict_prefix_def dest: prefix_order.antisym)
      then show ?thesis by simp
    next
      case skip
      then show ?thesis by simp
    qed
    with assms(2) have "rlookup (tree s') ?p \<noteq> None" by (auto simp: obs_def)
    with e False must show ?thesis by simp
  qed
  with eq show ?thesis by simp
qed

theorem deletion_decision_witness:
  "faults ex_remote_x = (\<lambda>c. None)
   \<and> rlookup (tree ex_remote_x) ([] @ [''x'']) = Some (Dir (rmeta 0 0) [(''y'', Reg (rmeta 1 1))])
   \<and> wf_node (Dir (rmeta 0 0) [(''y'', Reg (rmeta 1 1 :: int meta))])
   \<and> height (Dir (rmeta 0 0) [(''y'', Reg (rmeta 1 1 :: int meta))]) \<le> 2
   \<and> no_link_as_dir ex_remote_x
   \<and> lookup (lroot ex_local_x) ([] @ [''x'']) = Some (Reg (lmeta 5 20))
   \<and> rlookup (tree (snd (check_for_deletion_entry 2 (ex_self False) ex_local_x []
          (''x'', listed_as ex_remote_x (Dir (rmeta 0 0) [(''y'', Reg (rmeta 1 1))])) ex_remote_x))) [''x''] = None"
proof -
  let ?n = "Dir (rmeta 0 0) [(''y'', Reg (rmeta 1 1 :: int meta))]"
  have h1: "faults ex_remote_x = (\<lambda>c. None)" by (simp add: ex_remote_x_def)
  have h2: "rlookup (tree ex_remote_x) ([] @ [''x'']) = Some ?n" by (simp add: ex_remote_x_def)
  have h3: "wf_node ?n" by simp
  have h4: "height ?n \<le> 2" by simp
  have h5: "lookup (lroot ex_local_x) ([] @ [''x'']) = Some (Reg (lmeta 5 20))"
    by (simp add: ex_local_x_def)
  have h6: "no_link_as_dir ex_remote_x" by (simp add: ex_remote_x_def no_link_as_dir_def)
  from deletion_decision[OF h1 h2 h3 h4 h6, of "ex_self False" ex_local_x] h5
  have "rlookup (tree (snd (check_for_deletion_entry 2 (ex_self False) ex_local_x []
          (''x'', listed_as ex_remote_x ?n) ex_remote_x))) [''x''] = None"
    by simp
  with h1 h2 h3 h4 h5 h6 show ?thesis by blast
qed

section \<open>A run on a synchronised tree\<close>

lemma for_each_rel:
  assumes "R s"
    and "\<And>x s r s'. x \<in> set xs \<Longrightarrow> R s \<Longrightarrow> body x s = (r, s') \<Longrightarrow> R s'"
    and "for_each body xs s = (r, s')"
  shows "R s'"
  using assms
proof (induction xs arbitrary: s)
  case Nil
  then show ?case by simp
next
  case (Cons x xs)
  obtain r1 s1 where b: "body x s = (r1, s1)" by (cases "body x s")
  have R1: "R s1" using Cons.prems(2)[of x s r1 s1] Cons.prems(1) b by simp
  show ?case
  proof (cases r1)
    case (Return u)
    with Cons.prems(3) b have "for_each body xs s1 = (r, s')" by simp
    show ?thesis
    proof (rule Cons.IH[OF R1])
      show "for_each body xs s1 = (r, s')" by fact
    next
      fix x s r s'
      assume "x \<in> set xs" "R s" "body x s = (r, s')"
      then show "R s'" using Cons.prems(2)[of x s r s'] by simp
    qed
  next
    case (Raise e)
    with Cons.prems(3) b R1 show ?thesis by simp
  next
    case Struct_error
    with Cons.prems(3) b R1 show ?thesis by simp
  next
    case Exhausted
    with Cons.prems(3) b R1 show ?thesis by simp
  qed
qed

lemma rlookup_child:
  "rlookup t rel = Some (Dir m cs) \<Longrightarrow> distinct (map fst cs) \<Longrightarrow> (n, c) \<in> set cs \<Longrightarrow>
   rlookup t (rel @ [n]) = Some c"
  by (simp add: rlookup_snoc)

lemma core_type_of [simp]: "core_type (core_of n) = node_type n"
  by (cases n) simp_all

lemma matches_keeps:
  "matches lfs q (obs t q) \<Longrightarrow> rlookup t q = Some c \<Longrightarrow> \<not> must_be_deleted lfs q (lstat_of c)"
  by (auto simp: matches_def obs_def must_be_deleted_iff split: option.splits)

lemma is_dir_type: "is_dir (Some c) \<longleftrightarrow> node_type c = S_IFDIR"
  by (cases c) simp_all

text \<open>The deletion pass of a run on a tree with no stale entry only reads.\<close>

lemma check_for_deletion_entry_idle:
  assumes IH: "\<And>rel s r s'. faults s = (\<lambda>c. None) \<Longrightarrow> wf_tree (tree s) \<Longrightarrow>
        (\<forall>q. q \<noteq> [] \<longrightarrow> matches lfs q (obs (tree s) q)) \<Longrightarrow>
        is_dir (rlookup (tree s) rel) \<Longrightarrow>
        check_for_deletion d self lfs rel s = (r, s') \<Longrightarrow> tree s' = tree s \<and> extends is_read s s'"
    and ff: "faults s = (\<lambda>c. None)" and wf: "wf_tree (tree s)"
    and m: "\<forall>q. q \<noteq> [] \<longrightarrow> matches lfs q (obs (tree s) q)"
    and lk: "rlookup (tree s) (rel @ [n]) = Some c"
    and st: "node_type c \<noteq> S_IFLNK \<Longrightarrow> st = lstat_of c"
    and run: "check_for_deletion_entry d self lfs rel (n, st) s = (r, s')"
  shows "tree s' = tree s \<and> extends is_read s s'"
proof -
  let ?p = "rel @ [n]"
  let ?s1 = "s\<lparr>log := log s @ [Lstat ?p]\<rparr>"
  have ls: "sftp_lstat ?p s = (Return (lstat_of c), ?s1)"
    using ff lk by (simp add: sftp_lstat_ok)
  then have e1: "extends is_read s ?s1" by (rule sftp_extends) simp
  have keep: "\<not> must_be_deleted lfs ?p (lstat_of c)"
    using m lk by (intro matches_keeps) auto
  have "(check_for_deletion d self lfs ?p ?s1 = (r, s') \<and> node_type c = S_IFDIR) \<or> s' = ?s1"
  proof (cases "node_type c = S_IFLNK")
    case True
    with run ls keep show ?thesis by simp
  next
    case False
    with run ls keep st show ?thesis by (auto split: if_splits)
  qed
  then consider (rec) "check_for_deletion d self lfs ?p ?s1 = (r, s')" "node_type c = S_IFDIR"
    | (skip) "s' = ?s1" by blast
  then show ?thesis
  proof cases
    case rec
    have "is_dir (rlookup (tree ?s1) ?p)" using lk rec(2) by (simp add: is_dir_type)
    then have "tree s' = tree ?s1 \<and> extends is_read ?s1 s'"
      using ff wf m by (intro IH[OF _ _ _ _ rec(1)]) simp_all
    with e1 show ?thesis by (auto intro: extends_trans)
  next
    case skip
    with e1 show ?thesis by simp
  qed
qed

lemma check_for_deletion_idle:
  "faults s = (\<lambda>c. None) \<Longrightarrow> wf_tree (tree s) \<Longrightarrow>
   (\<forall>q. q \<noteq> [] \<longrightarrow> matches lfs q (obs (tree s) q)) \<Longrightarrow>
   is_dir (rlookup (tree s) rel) \<Longrightarrow>
   check_for_deletion d self lfs rel s = (r, s') \<Longrightarrow> tree s' = tree s \<and> extends is_read s s'"
proof (induction d arbitrary: rel s r s')
  case 0
  then show ?case by (simp add: extends_refl)
next
  case (Suc d)
  from Suc.prems(4) obtain m cs where dir: "rlookup (tree s) rel = Some (Dir m cs)"
    by (cases "rlookup (tree s) rel"; cases "the (rlookup (tree s) rel)") auto
  let ?s0 = "s\<lparr>log := log s @ [Listdir rel]\<rparr>"
  let ?entries = "map (\<lambda>(n, c). (n, listed_as s c)) cs"
  have l: "sftp_listdir_attr rel s = (Return ?entries, ?s0)"
    using Suc.prems(1) dir by (simp add: sftp_listdir_attr_ok)
  then have e0: "extends is_read s ?s0" by (rule sftp_extends) simp
  from dir Suc.prems(2) have "wf_node (Dir m cs)" by (rule wf_tree_rlookup[rotated])
  then have dist: "distinct (map fst cs)" by simp
  from Suc.prems(5) l
  have loop: "for_each (check_for_deletion_entry d self lfs rel) ?entries ?s0 = (r, s')" by simp
  let ?R = "\<lambda>s''. tree s'' = tree s \<and> extends is_read s s''"
  show ?case
  proof (rule for_each_rel[where R = ?R, OF _ _ loop])
    show "?R ?s0" using e0 by simp
  next
    fix x s1 r1 s2
    assume x: "x \<in> set ?entries" and R1: "?R s1"
      and b: "check_for_deletion_entry d self lfs rel x s1 = (r1, s2)"
    from x obtain n c where nc: "(n, c) \<in> set cs" "x = (n, listed_as s c)" by auto
    have lk: "rlookup (tree s1) (rel @ [n]) = Some c"
      using R1 dir dist nc(1) by (simp add: rlookup_child)
    have ff1: "faults s1 = (\<lambda>c. None)" using R1 Suc.prems(1) by (simp add: extends_def)
    have "tree s2 = tree s1 \<and> extends is_read s1 s2"
      using Suc.prems(2,3) R1 b nc(2)
      by (intro check_for_deletion_entry_idle[OF Suc.IH ff1 _ _ lk, where st = "listed_as s c"])
         simp_all
    with R1 show "?R s2" by (auto intro: extends_trans)
  qed
qed

lemma node_check_dir:
  "lookup (lroot lfs) (rel @ [f]) = Some (Dir lm lcs) \<Longrightarrow> rel @ [f] \<notin> exclude_list self \<Longrightarrow>
   node_check_for_upload_create d self lfs rel f s =
     (case (case sftp_stat (rel @ [f]) s of
              (Raise e, s1) \<Rightarrow> sftp_mkdir (rel @ [f]) s1
            | (Return r_st, s1) \<Rightarrow> (Return (), s1)
            | (Struct_error, s1) \<Rightarrow> (Struct_error, s1)
            | (Exhausted, s1) \<Rightarrow> (Exhausted, s1)) of
        (Return u, s2) \<Rightarrow>
          (case match_modes self (rel @ [f]) (lstat_of (Dir lm lcs)) s2 of
             (Return u, s3) \<Rightarrow> check_for_upload_create d self lfs (rel @ [f]) s3
           | r \<Rightarrow> r)
      | r \<Rightarrow> r)"
  by (simp add: node_check_for_upload_create.simps os_lstat_def)

lemma node_check_symlink:
  "lookup (lroot lfs) (rel @ [f]) = Some (Lnk lm tgt) \<Longrightarrow> rel @ [f] \<notin> exclude_list self \<Longrightarrow>
   node_check_for_upload_create d self lfs rel f s =
     (case link_target self lfs tgt of
        None \<Rightarrow> (Return (), s)
      | Some dst \<Rightarrow> create_update_symlink dst (rel @ [f]) s)"
  by (simp add: node_check_for_upload_create.simps os_lstat_def os_readlink_def link_target_def
      Let_def common2_prefix)

lemma node_check_reg:
  "lookup (lroot lfs) (rel @ [f]) = Some (Reg lm) \<Longrightarrow> rel @ [f] \<notin> exclude_list self \<Longrightarrow>
   node_check_for_upload_create d self lfs rel f s =
     (case sftp_lstat (rel @ [f]) s of
        (Return r_st, s1) \<Rightarrow>
          if file_need_upload (lstat_of (Reg lm)) r_st then
            (case file_upload self lfs (rel @ [f]) (rel @ [f]) (lstat_of (Reg lm)) s1 of
               (Raise e, s2) \<Rightarrow>
                 if e = ENOENT
                 then file_upload self lfs (rel @ [f]) (rel @ [f]) (lstat_of (Reg lm)) s2
                 else (Return (), s2)
             | r \<Rightarrow> r)
          else (Return (), s1)
      | (Raise e, s1) \<Rightarrow>
          if e = ENOENT
          then file_upload self lfs (rel @ [f]) (rel @ [f]) (lstat_of (Reg lm)) s1
          else (Return (), s1)
      | (Struct_error, s1) \<Rightarrow> (Struct_error, s1)
      | (Exhausted, s1) \<Rightarrow> (Exhausted, s1))"
  by (simp add: node_check_for_upload_create.simps os_lstat_def Let_def)

lemma node_check_special:
  "lookup (lroot lfs) (rel @ [f]) = Some (Special k lm) \<Longrightarrow>
   node_check_for_upload_create d self lfs rel f s = (Return (), s)"
  by (simp add: node_check_for_upload_create.simps os_lstat_def)

lemma node_check_excluded:
  "rel @ [f] \<in> exclude_list self \<Longrightarrow> snd (node_check_for_upload_create d self lfs rel f s) = s"
  by (simp add: node_check_for_upload_create.simps split: option.splits)

lemma node_check_missing:
  "lookup (lroot lfs) (rel @ [f]) = None \<Longrightarrow> snd (node_check_for_upload_create d self lfs rel f s) = s"
  by (simp add: node_check_for_upload_create.simps os_lstat_def)

lemma visible_extend:
  "rel = [] \<or> visible self [] rel \<Longrightarrow> rel @ [f] \<notin> exclude_list self \<Longrightarrow> visible self [] (rel @ [f])"
proof (cases "rel = []")
  case True
  assume "rel @ [f] \<notin> exclude_list self"
  with True show ?thesis using visible_child[of "[]" f self] by simp
next
  case False
  assume a: "rel = [] \<or> visible self [] rel" "rel @ [f] \<notin> exclude_list self"
  with False have v: "visible self [] rel" by simp
  show ?thesis unfolding visible_def
  proof (intro conjI allI impI)
    show "strict_prefix [] (rel @ [f])" by (simp add: strict_prefix_def)
  next
    fix q'
    assume q': "strict_prefix [] q' \<and> prefix q' (rel @ [f])"
    then have "q' = rel @ [f] \<or> prefix q' rel" by auto
    with a(2) v q' show "q' \<notin> exclude_list self" by (auto simp: visible_def)
  qed
qed

lemma rlookup_ralter_map:
  "rlookup t p = Some n \<Longrightarrow> rlookup (ralter p (map_option h) t) p = Some (h n)"
proof (cases "p = []")
  case True
  assume "rlookup t p = Some n"
  with True show ?thesis by (cases t) simp_all
next
  case False
  assume a: "rlookup t p = Some n"
  with False have "is_dir (rlookup t (butlast p))" by (intro rlookup_parent_dir)
  with a False show ?thesis by (simp add: rlookup_ralter_same)
qed

lemma obs_ralter_map:
  assumes "rlookup t p = Some n" and "core_of (h n) = core_of n"
    and "\<And>r. r \<noteq> [] \<Longrightarrow> lookup (h n) r = lookup n r"
  shows "obs (ralter p (map_option h) t) = obs t"
proof
  fix q
  show "obs (ralter p (map_option h) t) q = obs t q"
  proof (cases "prefix p q")
    case False
    then show ?thesis by (rule obs_ralter_outside)
  next
    case True
    then obtain r where q: "q = p @ r" by (auto simp: prefix_def)
    have new: "rlookup (ralter p (map_option h) t) (p @ r) = lookup (h n) r"
    proof (cases "p = []")
      case True
      with assms(1) show ?thesis by (cases t) simp_all
    next
      case False
      with assms(1) have "is_dir (rlookup t (butlast p))" by (intro rlookup_parent_dir)
      with assms(1) False show ?thesis by (simp add: rlookup_ralter_below)
    qed
    have old: "rlookup t (p @ r) = lookup n r"
      using assms(1) by (cases t) (simp_all add: lookup_append)
    show ?thesis
    proof (cases "r = []")
      case True
      with q new old assms(2) show ?thesis by (simp add: obs_def)
    next
      case False
      with q new old assms(3) show ?thesis by (simp add: obs_def)
    qed
  qed
qed

lemma lookup_set_meta: "r \<noteq> [] \<Longrightarrow> lookup (set_meta m n) r = lookup n r"
  by (cases n; cases r) simp_all

lemma ralter_map_at:
  "rlookup t p = Some n \<Longrightarrow> ralter p (map_option h) t = ralter p (\<lambda>_. Some (h n)) t"
proof -
  assume a: "rlookup t p = Some n"
  then have "ralter p (map_option h) t = ralter p (map_option h) (ralter p (\<lambda>_. Some n) t)"
    by (simp add: ralter_same_value)
  then show ?thesis by (simp add: ralter_after_set)
qed

lemma rlookup_ralter_set:
  "rlookup t p = Some n \<Longrightarrow> rlookup (ralter p (\<lambda>_. Some X) t) (p @ r) = lookup X r"
  using rlookup_ralter_map[of t p n "\<lambda>_. X"] ralter_map_at[of t p n "\<lambda>_. X"]
  by (cases "ralter p (\<lambda>_. Some X) t") (simp_all add: lookup_append)

lemma obs_ralter_set:
  assumes "rlookup t p = Some n" and "core_of X = core_of n"
    and "\<And>r. r \<noteq> [] \<Longrightarrow> lookup X r = lookup n r"
  shows "obs (ralter p (\<lambda>_. Some X) t) = obs t"
  using obs_ralter_map[of t p n "\<lambda>_. X"] ralter_map_at[of t p n "\<lambda>_. X"] assms by simp

lemma set_attr_ok:
  "rlookup (tree s) p = Some n \<Longrightarrow> node_type n \<noteq> S_IFLNK \<Longrightarrow>
   set_attr p g s = (Return (), ralter p (\<lambda>_. Some (set_meta (g (node_meta n)) n)) (tree s))"
  using ralter_map_at[of "tree s" p n "\<lambda>n. set_meta (g (node_meta n)) n"]
  by (cases n) (simp_all add: set_attr_def)

lemma node_type_set_meta [simp]: "node_type (set_meta m n) = node_type n"
  by (cases n) simp_all

lemma node_meta_set_meta [simp]: "node_meta (set_meta m n) = m"
  by (cases n) simp_all

lemma set_meta_set_meta [simp]: "set_meta m (set_meta m' n) = set_meta m n"
  by (cases n) simp_all

text \<open>Matching the modes of a remote node that is not a link, on a server that refuses nothing.\<close>

lemma match_modes_ok:
  assumes ff: "faults s = (\<lambda>c. None)"
    and lk: "rlookup (tree s) p = Some n" and nl: "node_type n \<noteq> S_IFLNK"
  shows "\<exists>r tr m'. match_modes self p l_st s
             = (r, s\<lparr>log := log s @ tr, tree := ralter p (\<lambda>_. Some (set_meta m' n)) (tree s)\<rparr>)
           \<and> (\<forall>c\<in>set tr. \<not> is_write c)
           \<and> m_size m' = m_size (node_meta n)
           \<and> (r = Return () \<and> m_mtime m' = py_int (st_mtime l_st) \<or> r = Struct_error)"
proof -
  let ?g1 = "\<lambda>a::int meta. a\<lparr>m_perm := S_IMODE (st_mode l_st)\<rparr>"
  let ?g2 = "\<lambda>a::int meta. a\<lparr>m_atime := py_int (st_atime l_st), m_mtime := py_int (st_mtime l_st)\<rparr>"
  let ?g3 = "\<lambda>a::int meta. a\<lparr>m_uid := st_uid l_st, m_gid := st_gid l_st\<rparr>"
  let ?m1 = "?g1 (node_meta n)"
  let ?m2 = "?g2 ?m1"
  let ?m3 = "?g3 ?m2"
  let ?c1 = "Chmod p (S_IMODE (st_mode l_st))"
  let ?c2 = "Utime p (st_atime l_st) (st_mtime l_st)"
  let ?c3 = "Chown p (st_uid l_st) (st_gid l_st)"
  let ?s1 = "s\<lparr>log := log s @ [?c1], tree := ralter p (\<lambda>_. Some (set_meta ?m1 n)) (tree s)\<rparr>"
  let ?s2 = "s\<lparr>log := log s @ [?c1, ?c2], tree := ralter p (\<lambda>_. Some (set_meta ?m2 n)) (tree s)\<rparr>"
  let ?s3 = "s\<lparr>log := log s @ [?c1, ?c2, ?c3], tree := ralter p (\<lambda>_. Some (set_meta ?m3 n)) (tree s)\<rparr>"
  have c1: "sftp_chmod p (S_IMODE (st_mode l_st)) s = (Return (), ?s1)"
    using ff lk set_attr_ok[OF lk nl, of ?g1] by (simp add: sftp_chmod_def serve_ok)
  have lk1: "rlookup (tree ?s1) p = Some (set_meta ?m1 n)"
    using rlookup_ralter_set[OF lk, of _ "[]"] by simp
  show ?thesis
  proof (cases "packs (py_int (st_atime l_st)) \<and> packs (py_int (st_mtime l_st))")
    case False
    then have "sftp_utime p (st_atime l_st, st_mtime l_st) ?s1 = (Struct_error, ?s1)"
      by (auto simp: sftp_utime_def)
    with c1 have "match_modes self p l_st s = (Struct_error, ?s1)" by (simp add: match_modes_def)
    then show ?thesis by (intro exI[of _ Struct_error] exI[of _ "[?c1]"] exI[of _ ?m1]) simp
  next
    case pk: True
    have c2: "sftp_utime p (st_atime l_st, st_mtime l_st) ?s1 = (Return (), ?s2)"
      using ff pk lk1 set_attr_ok[OF lk1, of ?g2] nl
      by (simp add: sftp_utime_def serve_ok ralter_after_set)
    have lk2: "rlookup (tree ?s2) p = Some (set_meta ?m2 n)"
      using rlookup_ralter_set[OF lk, of _ "[]"] by simp
    have c3: "sftp_chown p (st_uid l_st) (st_gid l_st) ?s2 = (Return (), ?s3)"
      using ff lk2 set_attr_ok[OF lk2, of ?g3] nl by (simp add: sftp_chown_def serve_ok ralter_after_set)
    show ?thesis
    proof (cases "chown self")
      case False
      with c1 c2 have "match_modes self p l_st s = (Return (), ?s2)" by (simp add: match_modes_def)
      then show ?thesis by (intro exI[of _ "Return ()"] exI[of _ "[?c1, ?c2]"] exI[of _ ?m2]) simp
    next
      case True
      with c1 c2 c3 have "match_modes self p l_st s = (Return (), ?s3)" by (simp add: match_modes_def)
      then show ?thesis by (intro exI[of _ "Return ()"] exI[of _ "[?c1, ?c2, ?c3]"] exI[of _ ?m3]) simp
    qed
  qed
qed

lemma synced_cong:
  "synced self lfs t \<Longrightarrow> obs t' = obs t \<Longrightarrow> (wf_tree t \<Longrightarrow> wf_tree t') \<Longrightarrow> synced self lfs t'"
  by (simp add: synced_def)

lemma obs_CDir: "obs t p = Some CDir \<Longrightarrow> \<exists>m cs. rlookup t p = Some (Dir m cs)"
  by (cases "rlookup t p"; cases "the (rlookup t p)") (auto simp: obs_def)

lemma obs_CLnk: "obs t p = Some (CLnk d) \<Longrightarrow> \<exists>m. rlookup t p = Some (Lnk m d)"
  by (cases "rlookup t p"; cases "the (rlookup t p)") (auto simp: obs_def)

lemma obs_CReg: "obs t p = Some (CReg sz mt) \<Longrightarrow> \<exists>m. rlookup t p = Some (Reg m) \<and> m_size m = sz \<and> m_mtime m = mt"
  by (cases "rlookup t p"; cases "the (rlookup t p)") (auto simp: obs_def)

lemma extends_same_obs:
  "(\<And>c. c \<in> set tr \<Longrightarrow> P c) \<Longrightarrow> obs t' = obs (tree s) \<Longrightarrow> (wf_tree (tree s) \<Longrightarrow> wf_tree t') \<Longrightarrow>
   extends P s (s\<lparr>log := log s @ tr, tree := t'\<rparr>)"
  by (auto simp: extends_def)

lemma extends_log_only:
  "(\<And>c. c \<in> set tr \<Longrightarrow> P c) \<Longrightarrow> extends P s (s\<lparr>log := log s @ tr\<rparr>)"
  by (auto simp: extends_def)

lemma sftp_stat_ok:
  "faults s (Stat p) = None \<Longrightarrow> rlookup (tree s) p = Some n \<Longrightarrow> node_type n \<noteq> S_IFLNK \<Longrightarrow>
   sftp_stat p s = (Return (lstat_of n), s\<lparr>log := log s @ [Stat p]\<rparr>)"
  by (cases n) (simp_all add: sftp_stat_def serve_ok)

lemma sftp_readlink_ok:
  "faults s (Readlink p) = None \<Longrightarrow> rlookup (tree s) p = Some (Lnk m t) \<Longrightarrow>
   sftp_readlink p s = (Return t, s\<lparr>log := log s @ [Readlink p]\<rparr>)"
  by (simp add: sftp_readlink_def serve_ok)

lemma create_update_symlink_same:
  "faults s (Readlink p) = None \<Longrightarrow> rlookup (tree s) p = Some (Lnk m d) \<Longrightarrow>
   create_update_symlink d p s = (Return (), s\<lparr>log := log s @ [Readlink p]\<rparr>)"
  by (simp add: create_update_symlink_def sftp_readlink_ok)

text \<open>The creation pass of a run on a synchronised tree uploads, creates and deletes nothing.\<close>

lemma node_check_idle:
  assumes IH: "\<And>rel s r s'. faults s = (\<lambda>c. None) \<Longrightarrow> synced self lfs (tree s) \<Longrightarrow>
        rel = [] \<or> visible self [] rel \<Longrightarrow>
        check_for_upload_create d self lfs rel s = (r, s') \<Longrightarrow>
        synced self lfs (tree s') \<and> extends (\<lambda>c. \<not> is_write c) s s'"
    and ff: "faults s = (\<lambda>c. None)" and syn: "synced self lfs (tree s)"
    and vis: "rel = [] \<or> visible self [] rel"
    and run: "node_check_for_upload_create d self lfs rel f s = (r, s')"
  shows "synced self lfs (tree s') \<and> extends (\<lambda>c. \<not> is_write c) s s'"
proof -
  let ?p = "rel @ [f]"
  let ?P = "\<lambda>c. \<not> is_write c"
  have same: "synced self lfs (tree s') \<and> extends ?P s s'" if "s' = s"
    using that syn by (simp add: extends_refl)
  show ?thesis
  proof (cases "?p \<in> exclude_list self")
    case True
    with run node_check_excluded[OF True, of d lfs s] show ?thesis by (intro same) simp
  next
    case False
    then have vp: "visible self [] ?p" using vis by (intro visible_extend)
    with syn have up: "uptodate self lfs ?p (obs (tree s) ?p)" by (simp add: synced_def)
    from syn have wf: "wf_tree (tree s)" by (simp add: synced_def)
    show ?thesis
    proof (cases "lookup (lroot lfs) ?p")
      case None
      with run node_check_missing[OF None, of d self s] show ?thesis by (intro same) simp
    next
      case (Some l)
      show ?thesis
      proof (cases l)
        case (Dir lm lcs)
        with Some up have "obs (tree s) ?p = Some CDir" by (simp add: uptodate_def)
        then obtain m cs where lk: "rlookup (tree s) ?p = Some (Dir m cs)" by (auto dest: obs_CDir)
        let ?s1 = "s\<lparr>log := log s @ [Stat ?p]\<rparr>"
        have st: "sftp_stat ?p s = (Return (lstat_of (Dir m cs)), ?s1)"
          using ff lk by (simp add: sftp_stat_ok)
        have ff1: "faults ?s1 = (\<lambda>c. None)" and lk1: "rlookup (tree ?s1) ?p = Some (Dir m cs)"
          using ff lk by simp_all
        from match_modes_ok[OF ff1 lk1, of self "lstat_of (Dir lm lcs)"]
        obtain r0 tr m' where mm: "match_modes self ?p (lstat_of (Dir lm lcs)) ?s1
             = (r0, ?s1\<lparr>log := log ?s1 @ tr,
                  tree := ralter ?p (\<lambda>_. Some (set_meta m' (Dir m cs))) (tree ?s1)\<rparr>)"
          and tr: "\<forall>c\<in>set tr. \<not> is_write c"
          and r0: "r0 = Return () \<or> r0 = Struct_error" by auto
        let ?t3 = "ralter ?p (\<lambda>_. Some (Dir m' cs)) (tree s)"
        let ?s3 = "s\<lparr>log := log s @ (Stat ?p # tr), tree := ?t3\<rparr>"
        have ob3: "obs ?t3 = obs (tree s)"
          using lk by (intro obs_ralter_set[where n = "Dir m cs"]) (auto simp: neq_Nil_conv)
        have wf3: "wf_tree ?t3"
          using wf lk wf_tree_rlookup[OF wf lk] by (intro wf_tree_ralter) simp_all
        have e3: "extends ?P s ?s3"
          using tr ob3 wf3 by (intro extends_same_obs) auto
        have syn3: "synced self lfs (tree ?s3)"
          using syn ob3 wf3 by (auto intro: synced_cong)
        from r0 show ?thesis
        proof
          assume "r0 = Return ()"
          with run Some Dir False st mm
          have rec: "check_for_upload_create d self lfs ?p ?s3 = (r, s')"
            by (simp add: node_check_dir)
          have "synced self lfs (tree s') \<and> extends ?P ?s3 s'"
            using ff syn3 vp by (intro IH[OF _ _ _ rec]) simp_all
          with e3 show ?thesis by (auto intro: extends_trans)
        next
          assume "r0 = Struct_error"
          with run Some Dir False st mm have "s' = ?s3" by (simp add: node_check_dir)
          with e3 syn3 show ?thesis by simp
        qed
      next
        case (Lnk lm tgt)
        show ?thesis
        proof (cases "link_target self lfs tgt")
          case None
          with run Some Lnk False show ?thesis by (intro same) (simp add: node_check_symlink)
        next
          case (Some dst)
          with \<open>lookup (lroot lfs) ?p = Some l\<close> Lnk up have "obs (tree s) ?p = Some (CLnk dst)"
            by (simp add: uptodate_def)
          then obtain m where lk: "rlookup (tree s) ?p = Some (Lnk m dst)" by (auto dest: obs_CLnk)
          from run \<open>lookup (lroot lfs) ?p = Some l\<close> Lnk False Some ff lk
          have "s' = s\<lparr>log := log s @ [Readlink ?p]\<rparr>"
            by (simp add: node_check_symlink create_update_symlink_same)
          with syn show ?thesis by (auto intro!: extends_log_only)
        qed
      next
        case (Reg lm)
        with Some up have "obs (tree s) ?p = Some (CReg (m_size lm) (py_int (m_mtime lm)))"
          by (simp add: uptodate_def)
        then obtain m where lk: "rlookup (tree s) ?p = Some (Reg m)"
          and eq: "m_size m = m_size lm" "m_mtime m = py_int (m_mtime lm)"
          by (auto dest: obs_CReg)
        have "\<not> file_need_upload (lstat_of (Reg lm)) (lstat_of (Reg m))"
          using eq by (simp add: file_need_upload_iff lstat_of_def)
        with run Some Reg False ff lk
        have "s' = s\<lparr>log := log s @ [Lstat ?p]\<rparr>"
          by (simp add: node_check_reg sftp_lstat_ok)
        with syn show ?thesis by (auto intro!: extends_log_only)
      next
        case (Special k lm)
        with run Some show ?thesis by (intro same) (simp add: node_check_special)
      qed
    qed
  qed
qed

lemma check_for_upload_create_idle:
  "faults s = (\<lambda>c. None) \<Longrightarrow> synced self lfs (tree s) \<Longrightarrow> rel = [] \<or> visible self [] rel \<Longrightarrow>
   check_for_upload_create d self lfs rel s = (r, s') \<Longrightarrow>
   synced self lfs (tree s') \<and> extends (\<lambda>c. \<not> is_write c) s s'"
proof (induction d arbitrary: rel s r s')
  case 0
  then show ?case by (simp add: extends_refl)
next
  case (Suc d)
  show ?case
  proof (cases "os_listdir lfs rel")
    case None
    with Suc.prems show ?thesis by (simp add: extends_refl)
  next
    case (Some names)
    with Suc.prems(4)
    have loop: "for_each (\<lambda>f. node_check_for_upload_create d self lfs rel f) names s = (r, s')"
      by simp
    let ?R = "\<lambda>s''. synced self lfs (tree s'') \<and> extends (\<lambda>c. \<not> is_write c) s s''"
    show ?thesis
    proof (rule for_each_rel[where R = ?R, OF _ _ loop])
      show "?R s" using Suc.prems(2) by (simp add: extends_refl)
    next
      fix x s1 r1 s2
      assume R1: "?R s1" and b: "node_check_for_upload_create d self lfs rel x s1 = (r1, s2)"
      have ff1: "faults s1 = (\<lambda>c. None)" using R1 Suc.prems(1) by (simp add: extends_def)
      have "synced self lfs (tree s2) \<and> extends (\<lambda>c. \<not> is_write c) s1 s2"
        using R1 Suc.prems(3) by (intro node_check_idle[OF Suc.IH ff1 _ _ b]) simp_all
      with R1 show "?R s2" by (auto intro: extends_trans)
    qed
  qed
qed

section \<open>A first run\<close>

lemma prune_Dir: "prune lfs p (Dir m cs) = Dir m (prune_entries lfs p cs)"
  by (simp add: prune_entries_def)

lemma prune_entries_Nil [simp]: "prune_entries lfs p [] = []"
  by (simp add: prune_entries_def)

lemma prune_entries_Cons:
  "prune_entries lfs p ((k, c) # cs) =
     (if must_be_deleted lfs (p @ [k]) (lstat_of c) then prune_entries lfs p cs
      else (k, prune lfs (p @ [k]) c) # prune_entries lfs p cs)"
  by (simp add: prune_entries_def)

lemma prune_not_dir: "node_type c \<noteq> S_IFDIR \<Longrightarrow> prune lfs p c = c"
  by (cases c) simp_all

lemma map_of_mid: "k \<notin> fst ` set A \<Longrightarrow> map_of (A @ (k, c) # B) k = Some c"
  by (induction A) auto

lemma delete_mid:
  "k \<notin> fst ` set A \<Longrightarrow> k \<notin> fst ` set B \<Longrightarrow> AList.delete k (A @ (k, c) # B) = A @ B"
  by (induction A) auto

lemma update_mid: "k \<notin> fst ` set A \<Longrightarrow> AList.update k v (A @ (k, c) # B) = A @ (k, v) # B"
  by (induction A) auto

lemma ralter_child:
  "rlookup t rel = Some X \<Longrightarrow> r \<noteq> [] \<Longrightarrow> ralter (rel @ r) g t = ralter rel (\<lambda>_. Some (alter r g X)) t"
proof -
  assume a: "rlookup t rel = Some X" "r \<noteq> []"
  then have "ralter (rel @ r) g t = ralter (rel @ r) g (ralter rel (\<lambda>_. Some X) t)"
    by (simp add: ralter_same_value)
  with a(2) show ?thesis by (simp add: ralter_below_set)
qed

lemma for_each_Cons_Return:
  "for_each body (x # xs) s = (Return u, s') \<Longrightarrow>
   \<exists>s1. body x s = (Return (), s1) \<and> for_each body xs s1 = (Return u, s')"
  by (cases "body x s"; cases "fst (body x s)") auto

lemma check_for_deletion_entry_listed:
  assumes "faults s (Lstat (rel @ [k])) = None" and "rlookup (tree s) (rel @ [k]) = Some c"
    and "node_type c \<noteq> S_IFLNK \<Longrightarrow> st = lstat_of c"
  shows "check_for_deletion_entry d self lfs rel (k, st) s
       = check_for_deletion_entry d self lfs rel (k, lstat_of c) s"
proof (cases "node_type c = S_IFLNK")
  case True
  with assms(1,2) show ?thesis by (simp add: sftp_lstat_ok)
next
  case False
  with assms(3) show ?thesis by simp
qed

lemma check_for_deletion_loop:
  assumes IH: "\<And>rel m cs s s'. faults s = (\<lambda>c. None) \<Longrightarrow> rlookup (tree s) rel = Some (Dir m cs) \<Longrightarrow>
      wf_node (Dir m cs) \<Longrightarrow> check_for_deletion d self lfs rel s = (Return (), s') \<Longrightarrow>
      no_link_as_dir s \<Longrightarrow>
      tree s' = ralter rel (\<lambda>_. Some (prune lfs rel (Dir m cs))) (tree s)"
    and a: "\<And>c. node_type c \<noteq> S_IFLNK \<Longrightarrow> a c = lstat_of c"
  shows "faults s = (\<lambda>c. None) \<Longrightarrow> rlookup (tree s) rel = Some (Dir m (A @ B)) \<Longrightarrow>
     distinct (map fst (A @ B)) \<Longrightarrow> list_all (\<lambda>nc. wf_node (snd nc)) B \<Longrightarrow>
     for_each (check_for_deletion_entry d self lfs rel) (map (\<lambda>(n, c). (n, a c)) B) s
       = (Return (), s') \<Longrightarrow>
     no_link_as_dir s \<Longrightarrow>
     tree s' = ralter rel (\<lambda>_. Some (Dir m (A @ prune_entries lfs rel B))) (tree s)"
proof (induction B arbitrary: A s)
  case Nil
  then show ?case by (simp add: ralter_same_value)
next
  case (Cons kc B)
  obtain k c where kc: "kc = (k, c)" by (cases kc)
  let ?p = "rel @ [k]"
  let ?X = "Dir m (A @ (k, c) # B)"
  from Cons.prems(3) kc have kA: "k \<notin> fst ` set A" and kB: "k \<notin> fst ` set B" by auto
  from Cons.prems(4) kc have wfc: "wf_node c" and wfB: "list_all (\<lambda>nc. wf_node (snd nc)) B" by auto
  have lkrel: "rlookup (tree s) rel = Some ?X" using Cons.prems(2) kc by simp
  have lk: "rlookup (tree s) ?p = Some c"
    using lkrel map_of_mid[OF kA, of c B] by (simp add: rlookup_snoc del: map_of_append)
  from Cons.prems(5) kc
  have "for_each (check_for_deletion_entry d self lfs rel)
       ((k, a c) # map (\<lambda>(n, c). (n, a c)) B) s = (Return (), s')"
    by (simp del: for_each.simps check_for_deletion_entry.simps)
  from for_each_Cons_Return[OF this] obtain s1 where
    e0: "check_for_deletion_entry d self lfs rel (k, a c) s = (Return (), s1)"
    and loop: "for_each (check_for_deletion_entry d self lfs rel) (map (\<lambda>(n, c). (n, a c)) B) s1
       = (Return (), s')"
    by blast
  have e: "check_for_deletion_entry d self lfs rel (k, lstat_of c) s = (Return (), s1)"
    using e0 check_for_deletion_entry_listed[of s rel k c "a c" d self lfs] Cons.prems(1) lk a
    by simp
  let ?s0 = "s\<lparr>log := log s @ [Lstat ?p]\<rparr>"
  have ls: "sftp_lstat ?p s = (Return (lstat_of c), ?s0)"
    using Cons.prems(1) lk by (simp add: sftp_lstat_ok)
  have ff1: "faults s1 = (\<lambda>c. None)"
  proof -
    have "extends (\<lambda>c. True) s s1"
      by (rule check_for_deletion_entry_extends[OF _ e]) (auto intro: check_for_deletion_extends)
    with Cons.prems(1) show ?thesis by (simp add: extends_def)
  qed
  have nl1: "no_link_as_dir s1"
  proof -
    have "extends (\<lambda>c. True) s s1"
      by (rule check_for_deletion_entry_extends[OF _ e]) (auto intro: check_for_deletion_extends)
    with Cons.prems(6) show ?thesis by (simp add: extends_def no_link_as_dir_def)
  qed
  have fin: "tree s' = ralter rel (\<lambda>_. Some (Dir m (A' @ prune_entries lfs rel B))) (tree s)"
    if t1: "tree s1 = ralter rel (\<lambda>_. Some (Dir m (A' @ B))) (tree s)"
      and names: "distinct (map fst (A' @ B))" for A'
  proof -
    have "rlookup (tree s1) rel = Some (Dir m (A' @ B))"
      using t1 rlookup_ralter_set[OF lkrel, of _ "[]"] by simp
    from Cons.IH[OF ff1 this names wfB loop nl1] t1 show ?thesis
      by (simp add: ralter_after_set)
  qed
  show ?case
  proof (cases "must_be_deleted lfs ?p (lstat_of c)")
    case True
    with e ls have rd: "remote_delete d ?p (lstat_of c) ?s0 = (Return (), s1)"
      by (auto split: if_splits)
    have "tree s1 = ralter ?p (\<lambda>_. None) (tree s)"
      using remote_delete_result[OF _ _ _ wfc rd] Cons.prems(1,6) lk
      by (cases "height c \<le> d") simp_all
    also have "\<dots> = ralter rel (\<lambda>_. Some (Dir m (A @ B))) (tree s)"
      using kA kB by (simp add: ralter_child[OF lkrel] delete_mid)
    finally have "tree s1 = ralter rel (\<lambda>_. Some (Dir m (A @ B))) (tree s)" .
    from fin[OF this] Cons.prems(3) kc True show ?thesis
      by (simp add: prune_entries_Cons)
  next
    case False
    show ?thesis
    proof (cases "node_type c = S_IFDIR")
      case nd: False
      with e ls False have "s1 = ?s0" by (auto split: if_splits)
      then have "tree s1 = ralter rel (\<lambda>_. Some (Dir m ((A @ [(k, c)]) @ B))) (tree s)"
        using lkrel by (simp add: ralter_same_value)
      from fin[OF this] Cons.prems(3) kc False nd show ?thesis
        by (simp add: prune_entries_Cons prune_not_dir)
    next
      case True
      then obtain m' cs' where c: "c = Dir m' cs'" by (cases c) auto
      with e ls False have rec: "check_for_deletion d self lfs ?p ?s0 = (Return (), s1)"
        by (auto split: if_splits)
      have "tree s1 = ralter ?p (\<lambda>_. Some (prune lfs ?p (Dir m' cs'))) (tree ?s0)"
        using Cons.prems(1,6) lk wfc c by (intro IH[OF _ _ _ rec]) simp_all
      then have "tree s1 = ralter ?p (\<lambda>_. Some (prune lfs ?p c)) (tree ?s0)"
        using c by simp
      also have "\<dots> = ralter rel (\<lambda>_. Some (Dir m ((A @ [(k, prune lfs ?p c)]) @ B))) (tree s)"
        using kA by (simp add: ralter_child[OF lkrel] update_mid)
      finally have "tree s1 = ralter rel (\<lambda>_. Some (Dir m ((A @ [(k, prune lfs ?p c)]) @ B))) (tree s)" .
      from fin[OF this] Cons.prems(3) kc False show ?thesis
        by (simp add: prune_entries_Cons)
    qed
  qed
qed

lemma check_for_deletion_prunes:
  "faults s = (\<lambda>c. None) \<Longrightarrow> rlookup (tree s) rel = Some (Dir m cs) \<Longrightarrow>
   wf_node (Dir m cs) \<Longrightarrow> check_for_deletion d self lfs rel s = (Return (), s') \<Longrightarrow>
   no_link_as_dir s \<Longrightarrow>
   tree s' = ralter rel (\<lambda>_. Some (prune lfs rel (Dir m cs))) (tree s)"
proof (induction d arbitrary: rel m cs s s')
  case 0
  then show ?case by simp
next
  case (Suc d)
  let ?s0 = "s\<lparr>log := log s @ [Listdir rel]\<rparr>"
  have ls: "sftp_listdir_attr rel s = (Return (map (\<lambda>(n, c). (n, listed_as s c)) cs), ?s0)"
    using Suc.prems(1,2) by (simp add: sftp_listdir_attr_ok)
  with Suc.prems(4)
  have loop: "for_each (check_for_deletion_entry d self lfs rel) (map (\<lambda>(n, c). (n, listed_as s c)) cs) ?s0
       = (Return (), s')" by simp
  have "tree s' = ralter rel (\<lambda>_. Some (Dir m ([] @ prune_entries lfs rel cs))) (tree ?s0)"
    using Suc.prems(1,2,3,5)
    by (intro check_for_deletion_loop[OF Suc.IH _ _ _ _ _ loop]) simp_all
  then show ?case by (simp add: prune_Dir del: prune.simps)
qed

lemma node_type_prune [simp]: "node_type (prune lfs p n) = node_type n"
  by (cases n) simp_all

lemma wf_node_prune: "wf_node n \<Longrightarrow> wf_node (prune lfs p n)"
proof (induction lfs p n rule: prune.induct)
  case (1 lfs p m cs)
  have "map fst (prune_entries lfs p cs)
      = map fst (filter (\<lambda>nc. \<not> must_be_deleted lfs (p @ [fst nc]) (lstat_of (snd nc))) cs)"
    by (simp add: prune_entries_def comp_def)
  then have "distinct (map fst (prune_entries lfs p cs))"
    using "1.prems" by (simp add: distinct_map_filter)
  moreover have "list_all (\<lambda>nc. wf_node (snd nc)) (prune_entries lfs p cs)"
    using "1.prems" "1.IH" by (auto simp: prune_entries_def list_all_iff)
  ultimately show ?case by (simp add: prune_Dir del: prune.simps)
qed simp_all

lemma prune_matches:
  "lookup (prune lfs p n) q = Some rn \<Longrightarrow> q \<noteq> [] \<Longrightarrow>
   \<exists>l. lookup (lroot lfs) (p @ q) = Some l \<and> node_type l = node_type rn"
proof (induction q arbitrary: p n)
  case Nil
  then show ?case by simp
next
  case (Cons k q)
  from Cons.prems(1) obtain m cs where n: "n = Dir m cs" by (cases n) auto
  with Cons.prems(1) obtain c' where c': "map_of (prune_entries lfs p cs) k = Some c'"
    and lq: "lookup c' q = Some rn"
    by (auto simp: prune_Dir simp del: prune.simps split: option.splits)
  from map_of_SomeD[OF c'] obtain c where c: "(k, c) \<in> set cs"
    "\<not> must_be_deleted lfs (p @ [k]) (lstat_of c)" "c' = prune lfs (p @ [k]) c"
    by (auto simp: prune_entries_def)
  from c(2) obtain l where l: "lookup (lroot lfs) (p @ [k]) = Some l" "node_type l = node_type c"
    by (auto simp: must_be_deleted_iff split: option.splits)
  show ?case
  proof (cases "q = []")
    case True
    with lq c(3) l show ?thesis by auto
  next
    case False
    from Cons.IH[OF lq[unfolded c(3)] False] show ?thesis by simp
  qed
qed

lemma pruned_after_deletion:
  assumes ff: "faults s = (\<lambda>c. None)" and wf: "wf_tree (tree s)"
    and run: "check_for_deletion d self lfs [] s = (Return (), s')"
    and nl: "no_link_as_dir s"
  shows "pruned lfs s' \<and> is_dir (rlookup (tree s') [])"
proof -
  have ex: "extends (\<lambda>c. True) s s'" by (rule check_for_deletion_extends[OF run]) simp
  obtain m cs where root: "tree s = Some (Dir m cs)"
  proof (cases d)
    case 0
    with run show ?thesis by simp
  next
    case (Suc d')
    have "\<exists>m cs. tree s = Some (Dir m cs)"
    proof (rule ccontr)
      assume "\<not> ?thesis"
      then have "\<forall>m cs. tree s \<noteq> Some (Dir m cs)" by blast
      from sftp_listdir_attr_not_dir[OF this] run Suc show False by auto
    qed
    then show ?thesis using that by auto
  qed
  with wf have wfn: "wf_node (Dir m cs)" by (simp add: wf_tree_def)
  have "tree s' = ralter [] (\<lambda>_. Some (prune lfs [] (Dir m cs))) (tree s)"
    using ff root wfn nl by (intro check_for_deletion_prunes[OF _ _ _ run]) simp_all
  then have t': "tree s' = Some (prune lfs [] (Dir m cs))" by simp
  have "matches lfs q (obs (tree s') q)" if "q \<noteq> []" for q
  proof (cases "lookup (prune lfs [] (Dir m cs)) q")
    case None
    with t' show ?thesis by (simp add: matches_def obs_def)
  next
    case (Some rn)
    from prune_matches[OF Some that] Some t' show ?thesis
      by (auto simp: matches_def obs_def)
  qed
  moreover have "wf_tree (tree s')" using t' wfn by (simp add: wf_tree_def wf_node_prune del: prune.simps)
  moreover have "faults s' = (\<lambda>c. None)" using ex ff by (simp add: extends_def)
  moreover have "is_dir (rlookup (tree s') [])" using t' by simp
  ultimately show ?thesis by (simp add: pruned_def)
qed

lemma rlookup_append:
  "rlookup t (p @ r) = (case rlookup t p of None \<Rightarrow> None | Some c \<Rightarrow> lookup c r)"
  by (cases t) (simp_all add: lookup_append)

lemma lookup_leaf: "node_type n \<noteq> S_IFDIR \<Longrightarrow> r \<noteq> [] \<Longrightarrow> lookup n r = None"
  by (cases n; cases r) simp_all

lemma is_dir_obs: "is_dir (rlookup t p) \<longleftrightarrow> obs t p = Some CDir"
  by (cases "rlookup t p"; cases "the (rlookup t p)") (auto simp: obs_def)

lemma pruned_log [simp]: "pruned lfs (s\<lparr>log := l\<rparr>) = pruned lfs s"
  by (simp add: pruned_def)

lemma pruned_frame:
  assumes pr: "pruned lfs s" and ex: "extends (\<lambda>c. prefix p (op_path c)) s s'"
    and at: "\<And>r. matches lfs (p @ r) (obs (tree s') (p @ r))"
  shows "pruned lfs s'"
proof -
  have "matches lfs q (obs (tree s') q)" if "q \<noteq> []" for q
  proof (cases "prefix p q")
    case True
    then show ?thesis using at by (auto simp: prefix_def)
  next
    case False
    have "obs (tree s') q = obs (tree s) q"
      by (rule extends_obs[OF ex]) (use False in \<open>auto dest: prefix_order.trans\<close>)
    with pr that show ?thesis by (simp add: pruned_def)
  qed
  with pr ex show ?thesis by (simp add: pruned_def extends_def)
qed

lemma leaf_done:
  assumes pr: "pruned lfs s" and ex: "extends (\<lambda>c. prefix p (op_path c)) s s'"
    and loc: "lookup (lroot lfs) p = Some l" "node_type l \<noteq> S_IFDIR"
    and rem: "case rlookup (tree s') p of None \<Rightarrow> True | Some n \<Rightarrow> node_type n = node_type l"
    and up: "uptodate self lfs p (obs (tree s') p)"
  shows "pruned lfs s' \<and> (\<forall>q. prefix p q \<and> visible self [] q \<longrightarrow> uptodate self lfs q (obs (tree s') q))"
proof -
  have below: "rlookup (tree s') (p @ r) = None" if "r \<noteq> []" for r
    using rem loc(2) that by (auto simp: rlookup_append lookup_leaf split: option.splits)
  have "matches lfs (p @ r) (obs (tree s') (p @ r))" for r
  proof (cases "r = []")
    case True
    with rem loc(1) show ?thesis by (auto simp: matches_def obs_def split: option.splits)
  next
    case False
    from below[OF this] show ?thesis by (simp add: matches_def obs_def)
  qed
  then have "pruned lfs s'" by (rule pruned_frame[OF pr ex])
  moreover have "uptodate self lfs (p @ r) (obs (tree s') (p @ r))" for r
  proof (cases "r = []")
    case True
    with up show ?thesis by simp
  next
    case False
    with loc have "lookup (lroot lfs) (p @ r) = None" by (simp add: lookup_append lookup_leaf)
    then show ?thesis by (simp add: uptodate_def)
  qed
  ultimately show ?thesis by (auto simp: prefix_def)
qed

lemma pruned_at:
  "pruned lfs s \<Longrightarrow> p \<noteq> [] \<Longrightarrow> lookup (lroot lfs) p = Some l \<Longrightarrow>
   (case rlookup (tree s) p of None \<Rightarrow> True | Some n \<Rightarrow> node_type n = node_type l)"
  by (auto simp: pruned_def matches_def obs_def split: option.splits dest!: spec[of _ p])

lemma file_upload_ok:
  assumes ff: "faults s = (\<lambda>c. None)" and par: "parent_is_dir (tree s) p"
    and loc: "lookup (lroot lfs) p = Some (Reg lm)"
    and free: "case rlookup (tree s) p of None \<Rightarrow> True | Some n \<Rightarrow> node_type n = S_IFREG"
  shows "\<exists>r s' m'. file_upload self lfs p p (lstat_of (Reg lm)) s = (r, s') \<and>
           (r = Struct_error \<or>
            r = Return () \<and> rlookup (tree s') p = Some (Reg m') \<and> m_size m' = m_size lm \<and>
              m_mtime m' = py_int (m_mtime lm))"
proof -
  from par have ne: "p \<noteq> []" and pd: "is_dir (rlookup (tree s) (butlast p))"
    by (simp_all add: parent_is_dir_iff)
  have nb: "\<not> beyond (tree s) p" using pd by (rule not_beyond_parent)
  obtain m1 where put: "sftp_put lfs p p s =
      (Return (), s\<lparr>log := log s @ [Put p p], tree := ralter p (\<lambda>_. Some (Reg m1)) (tree s)\<rparr>)"
    and sz: "m_size m1 = m_size lm"
  proof (cases "rlookup (tree s) p")
    case None
    then show ?thesis using ff par loc nb
      by (intro that[of "(fresh s)\<lparr>m_size := m_size lm\<rparr>"])
         (simp_all add: sftp_put_def serve_ok os_lstat_def lstat_of_def)
  next
    case (Some n)
    with free obtain m where "n = Reg m" by (cases n) auto
    with Some show ?thesis using ff loc nb
      by (intro that[of "m\<lparr>m_size := m_size lm, m_atime := m_atime (fresh s), m_mtime := m_mtime (fresh s)\<rparr>"])
         (simp_all add: sftp_put_def serve_ok os_lstat_def lstat_of_def)
  qed
  let ?s1 = "s\<lparr>log := log s @ [Put p p], tree := ralter p (\<lambda>_. Some (Reg m1)) (tree s)\<rparr>"
  have l1: "rlookup (tree ?s1) p = Some (Reg m1)" using ne pd by (simp add: rlookup_ralter_same)
  have ff1: "faults ?s1 = (\<lambda>c. None)" using ff by simp
  from match_modes_ok[OF ff1 l1, of self "lstat_of (Reg lm)"]
  obtain r tr m' where mm: "match_modes self p (lstat_of (Reg lm)) ?s1
      = (r, ?s1\<lparr>log := log ?s1 @ tr, tree := ralter p (\<lambda>_. Some (set_meta m' (Reg m1))) (tree ?s1)\<rparr>)"
    and m': "m_size m' = m_size (node_meta (Reg m1))"
    and r: "r = Return () \<and> m_mtime m' = py_int (st_mtime (lstat_of (Reg lm))) \<or> r = Struct_error"
    by auto
  have "rlookup (ralter p (\<lambda>_. Some (set_meta m' (Reg m1))) (tree ?s1)) (p @ []) = lookup (set_meta m' (Reg m1)) []"
    by (rule rlookup_ralter_set[OF l1])
  then have "rlookup (ralter p (\<lambda>_. Some (set_meta m' (Reg m1))) (tree ?s1)) p = Some (Reg m')" by simp
  with put mm m' sz r show ?thesis
    by (auto simp: file_upload_def lstat_of_def)
qed

text \<open>
  The creation pass of a run on a pruned tree, on a server that refuses nothing: every node
  it visits is left up to date.
\<close>

lemma node_check_creates:
  assumes IH: "\<And>rel s s'. pruned lfs s \<Longrightarrow> is_dir (rlookup (tree s) rel) \<Longrightarrow>
        check_for_upload_create d self lfs rel s = (Return (), s') \<Longrightarrow>
        pruned lfs s' \<and>
        (\<forall>q. strict_prefix rel q \<and> visible self [] q \<longrightarrow> uptodate self lfs q (obs (tree s') q))"
    and pr: "pruned lfs s" and dir: "is_dir (rlookup (tree s) rel)"
    and run: "node_check_for_upload_create d self lfs rel f s = (Return (), s')"
  shows "pruned lfs s' \<and> extends (\<lambda>c. prefix (rel @ [f]) (op_path c)) s s' \<and>
         (\<forall>q. prefix (rel @ [f]) q \<and> visible self [] q \<longrightarrow> uptodate self lfs q (obs (tree s') q))"
proof -
  let ?p = "rel @ [f]"
  let ?P = "\<lambda>c. prefix ?p (op_path c)"
  have ff: "faults s = (\<lambda>c. None)" using pr by (simp add: pruned_def)
  have par: "parent_is_dir (tree s) ?p" using dir by (simp add: parent_is_dir_iff)
  have ex: "extends ?P s s'"
    by (rule node_check_for_upload_create_extends[OF _ run])
       (erule check_for_upload_create_extends, simp_all)
  have leaf: ?thesis
    if "lookup (lroot lfs) ?p = Some l" "node_type l \<noteq> S_IFDIR"
      "case rlookup (tree s') ?p of None \<Rightarrow> True | Some n \<Rightarrow> node_type n = node_type l"
      "uptodate self lfs ?p (obs (tree s') ?p)" for l
    using leaf_done[OF pr ex that] ex by simp
  show ?thesis
  proof (cases "?p \<in> exclude_list self")
    case True
    from node_check_excluded[OF True, of d lfs s] run have s': "s' = s" by simp
    have "\<not> visible self [] q" if "prefix ?p q" for q
      using True that by (auto simp: visible_def strict_prefix_def)
    with pr ex s' show ?thesis by auto
  next
    case nex: False
    show ?thesis
    proof (cases "lookup (lroot lfs) ?p")
      case None
      with run show ?thesis by (simp add: node_check_for_upload_create.simps os_lstat_def)
    next
      case (Some l)
      note free = pruned_at[OF pr _ Some, simplified]
      show ?thesis
      proof (cases l)
        case (Special k lm)
        from node_check_special[OF Some[unfolded Special], of d self s] run have s': "s' = s" by simp
        show ?thesis
          by (rule leaf[OF Some]) (use free Special s' Some in \<open>simp_all add: uptodate_def\<close>)
      next
        case (Lnk lm tgt)
        note nc = node_check_symlink[OF Some[unfolded Lnk] nex, of d s]
        show ?thesis
        proof (cases "link_target self lfs tgt")
          case None
          with nc run have s': "s' = s" by simp
          show ?thesis
            by (rule leaf[OF Some]) (use free Lnk s' Some None in \<open>simp_all add: uptodate_def\<close>)
        next
          case (Some dst)
          with nc run have cus: "create_update_symlink dst ?p s = (Return (), s')" by simp
          have "case rlookup (tree s) ?p of None \<Rightarrow> True | Some (Lnk m t) \<Rightarrow> True | Some _ \<Rightarrow> False"
            using free Lnk by (auto split: option.splits node.splits)
          from create_update_symlink_effect[OF ff par this, of dst] cus
          obtain m where at: "rlookup (tree s') ?p = Some (Lnk m dst)" by auto
          show ?thesis
            by (rule leaf[OF \<open>lookup (lroot lfs) ?p = Some l\<close>])
               (use at Lnk Some \<open>lookup (lroot lfs) ?p = Some l\<close> in \<open>simp_all add: uptodate_def obs_def\<close>)
        qed
      next
        case (Reg lm)
        note nc = node_check_reg[OF Some[unfolded Reg] nex, of d s]
        let ?s1 = "s\<lparr>log := log s @ [Lstat ?p]\<rparr>"
        have ls: "sftp_lstat ?p s =
            ((case rlookup (tree s) ?p of None \<Rightarrow> Raise ENOENT | Some n \<Rightarrow> Return (lstat_of n)), ?s1)"
          using ff par by (intro sftp_lstat_ok) (simp_all add: parent_is_dir_iff not_beyond_parent)
        have free1: "case rlookup (tree ?s1) ?p of None \<Rightarrow> True | Some n \<Rightarrow> node_type n = S_IFREG"
          using free Reg by (simp split: option.splits)
        from file_upload_ok[OF _ _ Some[unfolded Reg] free1, of self] ff par
        obtain r2 s2 m' where fu: "file_upload self lfs ?p ?p (lstat_of (Reg lm)) ?s1 = (r2, s2)"
          and r2: "r2 = Struct_error \<or>
            r2 = Return () \<and> rlookup (tree s2) ?p = Some (Reg m') \<and> m_size m' = m_size lm \<and>
              m_mtime m' = py_int (m_mtime lm)"
          by auto
        have "\<exists>m'. rlookup (tree s') ?p = Some (Reg m') \<and> m_size m' = m_size lm \<and>
                m_mtime m' = py_int (m_mtime lm)"
        proof (cases "rlookup (tree s) ?p")
          case None
          with nc ls fu run r2 have "s' = s2 \<and> r2 = Return ()" by auto
          with r2 show ?thesis by auto
        next
          case (Some n)
          with free Reg obtain rm where n: "n = Reg rm" by (cases n) auto
          show ?thesis
          proof (cases "file_need_upload (lstat_of (Reg lm)) (lstat_of (Reg rm))")
            case True
            with nc ls fu run Some n r2 have "s' = s2 \<and> r2 = Return ()" by auto
            with r2 show ?thesis by auto
          next
            case False
            with nc ls run Some n have "s' = ?s1" by simp
            with False Some n show ?thesis by (simp add: file_need_upload_iff lstat_of_def)
          qed
        qed
        then obtain m' where at: "rlookup (tree s') ?p = Some (Reg m')" "m_size m' = m_size lm"
          "m_mtime m' = py_int (m_mtime lm)" by auto
        show ?thesis
          by (rule leaf[OF Some]) (use at Reg Some in \<open>simp_all add: uptodate_def obs_def\<close>)
      next
        case (Dir lm lcs)
        note nc = node_check_dir[OF Some[unfolded Dir] nex, of d s]
        obtain s2 m2 cs2 where
          step: "(case sftp_stat ?p s of
                    (Raise e, s1) \<Rightarrow> sftp_mkdir ?p s1
                  | (Return r_st, s1) \<Rightarrow> (Return (), s1)
                  | (Struct_error, s1) \<Rightarrow> (Struct_error, s1)
                  | (Exhausted, s1) \<Rightarrow> (Exhausted, s1)) = (Return (), s2)"
          and at2: "rlookup (tree s2) ?p = Some (Dir m2 cs2)"
          and pr2: "pruned lfs s2"
        proof (cases "rlookup (tree s) ?p")
          case None
          let ?s1 = "s\<lparr>log := log s @ [Stat ?p]\<rparr>"
          let ?s2 = "?s1\<lparr>log := log ?s1 @ [Mkdir ?p], tree := ralter ?p (\<lambda>_. Some (Dir (fresh s) [])) (tree s)\<rparr>"
          have st: "sftp_stat ?p s = (Raise ENOENT, ?s1)"
            using ff None dir by (simp add: sftp_stat_def serve_ok not_beyond_parent)
          have mk: "sftp_mkdir ?p ?s1 = (Return (), ?s2)"
            using ff None par dir by (simp add: sftp_mkdir_def serve_ok not_beyond_parent)
          have at: "rlookup (tree ?s2) (?p @ r) = lookup (Dir (fresh s) []) r" for r
            using dir rlookup_ralter_below[of ?p "\<lambda>_. Some (Dir (fresh s) [])" "tree s" r] by simp
          have "extends ?P s ?s1" by (rule sftp_extends(3)[OF st]) simp
          moreover have "extends ?P ?s1 ?s2" by (rule sftp_extends(4)[OF mk]) simp
          ultimately have ex2: "extends ?P s ?s2" by (rule extends_trans)
          have "matches lfs (?p @ r) (obs (tree ?s2) (?p @ r))" for r
          proof (cases r)
            case Nil
            with at[of "[]"] Some Dir show ?thesis by (simp add: matches_def obs_def)
          next
            case (Cons a r')
            with at[of r] show ?thesis by (simp add: matches_def obs_def)
          qed
          then have "pruned lfs ?s2" by (rule pruned_frame[OF pr ex2])
          moreover have "rlookup (tree ?s2) ?p = Some (Dir (fresh s) [])" using at[of "[]"] by simp
          ultimately show ?thesis using st mk by (intro that[of ?s2 "fresh s" "[]"]) simp_all
        next
          case (Some n)
          with free Dir obtain m cs where n: "n = Dir m cs" by (cases n) auto
          have "sftp_stat ?p s = (Return (lstat_of n), s\<lparr>log := log s @ [Stat ?p]\<rparr>)"
            using ff Some n by (intro sftp_stat_ok) simp_all
          then show ?thesis using Some n pr
            by (intro that[of "s\<lparr>log := log s @ [Stat ?p]\<rparr>" m cs]) simp_all
        qed
        have ff2: "faults s2 = (\<lambda>c. None)" using pr2 by (simp add: pruned_def)
        from match_modes_ok[OF ff2 at2, of self "lstat_of (Dir lm lcs)"]
        obtain r0 tr m' where mm0: "match_modes self ?p (lstat_of (Dir lm lcs)) s2
            = (r0, s2\<lparr>log := log s2 @ tr, tree := ralter ?p (\<lambda>_. Some (set_meta m' (Dir m2 cs2))) (tree s2)\<rparr>)"
          and r0: "r0 = Return () \<or> r0 = Struct_error"
          by auto
        have "r0 = Return ()"
        proof (rule ccontr)
          assume "r0 \<noteq> Return ()"
          with r0 have "r0 = Struct_error" by simp
          with nc step mm0 run show False by simp
        qed
        with mm0 have mm: "match_modes self ?p (lstat_of (Dir lm lcs)) s2
            = (Return (), s2\<lparr>log := log s2 @ tr, tree := ralter ?p (\<lambda>_. Some (set_meta m' (Dir m2 cs2))) (tree s2)\<rparr>)"
          by simp
        let ?s3 = "s2\<lparr>log := log s2 @ tr, tree := ralter ?p (\<lambda>_. Some (Dir m' cs2)) (tree s2)\<rparr>"
        have "lookup (Dir m' cs2) r = lookup (Dir m2 cs2) r" if "r \<noteq> []" for r
          using that by (cases r) simp_all
        then have "obs (ralter ?p (\<lambda>_. Some (Dir m' cs2)) (tree s2)) = obs (tree s2)"
          by (intro obs_ralter_set[OF at2]) simp_all
        then have ob: "obs (tree ?s3) = obs (tree s2)" by simp
        have wf3: "wf_tree (tree ?s3)"
        proof -
          have "wf_tree (tree s2)" using pr2 by (simp add: pruned_def)
          moreover from this at2 have "wf_node (Dir m2 cs2)" by (rule wf_tree_rlookup)
          ultimately show ?thesis by (simp add: wf_tree_ralter)
        qed
        have pr3: "pruned lfs ?s3" using pr2 ob wf3 by (simp add: pruned_def)
        have dir3: "is_dir (rlookup (tree ?s3) ?p)"
          using ob at2 by (simp add: is_dir_obs obs_def)
        from nc step mm run
        have rec: "check_for_upload_create d self lfs ?p ?s3 = (Return (), s')" by simp
        from IH[OF pr3 dir3 rec]
        have pr': "pruned lfs s'"
          and below: "\<And>q. strict_prefix ?p q \<Longrightarrow> visible self [] q \<Longrightarrow> uptodate self lfs q (obs (tree s') q)"
          by auto
        have ex3: "extends (\<lambda>c. strict_prefix ?p (op_path c)) ?s3 s'"
          by (rule check_for_upload_create_extends[OF rec]) (simp add: visible_def)
        have "obs (tree s') ?p = obs (tree ?s3) ?p"
          by (rule extends_obs[OF ex3]) (blast dest: prefix_order.leD)
        with dir3 have "obs (tree s') ?p = Some CDir" by (simp add: is_dir_obs)
        with Some Dir have "uptodate self lfs ?p (obs (tree s') ?p)" by (simp add: uptodate_def)
        with below have "\<And>q. prefix ?p q \<Longrightarrow> visible self [] q \<Longrightarrow> uptodate self lfs q (obs (tree s') q)"
          by (auto simp: prefix_order.le_less)
        with pr' ex show ?thesis by blast
      qed
    qed
  qed
qed

lemma check_for_upload_create_loop:
  assumes node: "\<And>f s s'. pruned lfs s \<Longrightarrow> is_dir (rlookup (tree s) rel) \<Longrightarrow>
        node_check_for_upload_create d self lfs rel f s = (Return (), s') \<Longrightarrow>
        pruned lfs s' \<and> extends (\<lambda>c. prefix (rel @ [f]) (op_path c)) s s' \<and>
        (\<forall>q. prefix (rel @ [f]) q \<and> visible self [] q \<longrightarrow> uptodate self lfs q (obs (tree s') q))"
  shows "pruned lfs s \<Longrightarrow> is_dir (rlookup (tree s) rel) \<Longrightarrow>
     for_each (\<lambda>f. node_check_for_upload_create d self lfs rel f) names s = (Return (), s') \<Longrightarrow>
     pruned lfs s' \<and> extends (\<lambda>c. \<exists>f\<in>set names. prefix (rel @ [f]) (op_path c)) s s' \<and>
     (\<forall>q. (\<exists>f\<in>set names. prefix (rel @ [f]) q) \<and> visible self [] q \<longrightarrow>
          uptodate self lfs q (obs (tree s') q))"
proof (induction names arbitrary: s)
  case Nil
  then show ?case by (simp add: extends_refl)
next
  case (Cons x xs)
  from for_each_Cons_Return[OF Cons.prems(3)] obtain s1 where
    b: "node_check_for_upload_create d self lfs rel x s = (Return (), s1)"
    and rest: "for_each (\<lambda>f. node_check_for_upload_create d self lfs rel f) xs s1 = (Return (), s')"
    by blast
  from node[OF Cons.prems(1,2) b] have pr1: "pruned lfs s1"
    and ex1: "extends (\<lambda>c. prefix (rel @ [x]) (op_path c)) s s1"
    and up1: "\<And>q. prefix (rel @ [x]) q \<Longrightarrow> visible self [] q \<Longrightarrow> uptodate self lfs q (obs (tree s1) q)"
    by auto
  have "obs (tree s1) rel = obs (tree s) rel"
    by (rule extends_obs[OF ex1]) (auto simp: prefix_def)
  with Cons.prems(2) have dir1: "is_dir (rlookup (tree s1) rel)" by (simp add: is_dir_obs)
  from Cons.IH[OF pr1 dir1 rest] have pr': "pruned lfs s'"
    and ex': "extends (\<lambda>c. \<exists>f\<in>set xs. prefix (rel @ [f]) (op_path c)) s1 s'"
    and up': "\<And>q. \<exists>f\<in>set xs. prefix (rel @ [f]) q \<Longrightarrow> visible self [] q \<Longrightarrow>
                uptodate self lfs q (obs (tree s') q)"
    by auto
  have ex: "extends (\<lambda>c. \<exists>f\<in>set (x # xs). prefix (rel @ [f]) (op_path c)) s s'"
    by (rule extends_trans[OF extends_mono[OF ex1] extends_mono[OF ex']]) auto
  have "uptodate self lfs q (obs (tree s') q)"
    if q: "\<exists>f\<in>set (x # xs). prefix (rel @ [f]) q" and v: "visible self [] q" for q
  proof (cases "\<exists>f\<in>set xs. prefix (rel @ [f]) q")
    case True
    then show ?thesis using v by (rule up')
  next
    case False
    with q have px: "prefix (rel @ [x]) q" by auto
    have "obs (tree s') q = obs (tree s1) q"
    proof (rule extends_obs[OF ex'])
      fix c assume "\<exists>f\<in>set xs. prefix (rel @ [f]) (op_path c)"
      then obtain f where "f \<in> set xs" "prefix (rel @ [f]) (op_path c)" by blast
      with False show "\<not> prefix (op_path c) q" using prefix_order.trans by blast
    qed
    with up1[OF px v] show ?thesis by simp
  qed
  with pr' ex show ?case by blast
qed

lemma check_for_upload_create_creates:
  "pruned lfs s \<Longrightarrow> is_dir (rlookup (tree s) rel) \<Longrightarrow>
   check_for_upload_create d self lfs rel s = (Return (), s') \<Longrightarrow>
   pruned lfs s' \<and>
   (\<forall>q. strict_prefix rel q \<and> visible self [] q \<longrightarrow> uptodate self lfs q (obs (tree s') q))"
proof (induction d arbitrary: rel s s')
  case 0
  then show ?case by simp
next
  case (Suc d)
  obtain lm lcs where loc: "lookup (lroot lfs) rel = Some (Dir lm lcs)"
  proof (cases "os_listdir lfs rel")
    case None
    with Suc.prems(3) show ?thesis by simp
  next
    case (Some names)
    then show ?thesis using that
      by (cases "lookup (lroot lfs) rel"; cases "the (lookup (lroot lfs) rel)") (simp_all add: os_listdir_def)
  qed
  then have "os_listdir lfs rel = Some (map fst lcs)" by (simp add: os_listdir_def)
  with Suc.prems(3)
  have loop: "for_each (\<lambda>f. node_check_for_upload_create d self lfs rel f) (map fst lcs) s = (Return (), s')"
    by simp
  have res: "pruned lfs s' \<and>
     extends (\<lambda>c. \<exists>f\<in>set (map fst lcs). prefix (rel @ [f]) (op_path c)) s s' \<and>
     (\<forall>q. (\<exists>f\<in>set (map fst lcs). prefix (rel @ [f]) q) \<and> visible self [] q \<longrightarrow>
          uptodate self lfs q (obs (tree s') q))"
  proof (rule check_for_upload_create_loop[OF _ Suc.prems(1,2) loop])
    fix f s s'
    assume a: "pruned lfs s" "is_dir (rlookup (tree s) rel)"
      "node_check_for_upload_create d self lfs rel f s = (Return (), s')"
    show "pruned lfs s' \<and> extends (\<lambda>c. prefix (rel @ [f]) (op_path c)) s s' \<and>
        (\<forall>q. prefix (rel @ [f]) q \<and> visible self [] q \<longrightarrow> uptodate self lfs q (obs (tree s') q))"
    proof (rule node_check_creates[OF _ a])
      fix rel s s'
      assume "pruned lfs s" "is_dir (rlookup (tree s) rel)"
        "check_for_upload_create d self lfs rel s = (Return (), s')"
      then show "pruned lfs s' \<and>
         (\<forall>q. strict_prefix rel q \<and> visible self [] q \<longrightarrow> uptodate self lfs q (obs (tree s') q))"
        by (rule Suc.IH)
    qed
  qed
  from res have pr': "pruned lfs s'" by (rule conjunct1)
  from res have up0: "\<forall>q. (\<exists>f\<in>set (map fst lcs). prefix (rel @ [f]) q) \<and> visible self [] q \<longrightarrow>
               uptodate self lfs q (obs (tree s') q)"
    by (elim conjE)
  have up: "uptodate self lfs q (obs (tree s') q)"
    if "f \<in> set (map fst lcs)" "prefix (rel @ [f]) q" "visible self [] q" for f q
    using up0 that by blast
  have "uptodate self lfs q (obs (tree s') q)" if sp: "strict_prefix rel q" and v: "visible self [] q" for q
  proof -
    from sp obtain f r where q: "q = rel @ f # r"
    proof -
      from sp obtain zs where z: "q = rel @ zs" "zs \<noteq> []" by (auto simp: strict_prefix_def prefix_def)
      then show ?thesis using that by (cases zs) auto
    qed
    show ?thesis
    proof (cases "f \<in> set (map fst lcs)")
      case True
      moreover from q have "prefix (rel @ [f]) q" by (simp add: prefix_def)
      ultimately show ?thesis using v by (rule up)
    next
      case False
      then have "map_of lcs f = None" by (simp add: map_of_eq_None_iff)
      with loc q have "lookup (lroot lfs) q = None" by (simp add: lookup_append)
      then show ?thesis by (simp add: uptodate_def)
    qed
  qed
  with pr' show ?case by blast
qed

text \<open>A run on a server that refuses nothing leaves the remote tree synchronised.\<close>

lemma run_synced:
  assumes ff: "faults s = (\<lambda>c. None)" and wf: "wf_tree (tree s)"
    and run: "run d self lfs s = (Return (), s')"
    and nl: "no_link_as_dir s"
  shows "faults s' = (\<lambda>c. None) \<and> synced self lfs (tree s')"
proof -
  from run obtain s1 where del: "check_for_deletion d self lfs [] s = (Return (), s1)"
    and cre: "check_for_upload_create d self lfs [] s1 = (Return (), s')"
    by (auto simp: run_def split: prod.splits outcome.splits)
  from pruned_after_deletion[OF ff wf del nl] have "pruned lfs s1" "is_dir (rlookup (tree s1) [])"
    by simp_all
  from check_for_upload_create_creates[OF this cre]
  have "pruned lfs s'" and "\<And>q. visible self [] q \<Longrightarrow> uptodate self lfs q (obs (tree s') q)"
    by (auto simp: visible_def)
  then show ?thesis by (simp add: pruned_def synced_def)
qed

lemma run_idle:
  assumes ff: "faults s = (\<lambda>c. None)" and syn: "synced self lfs (tree s)"
    and run: "run d self lfs s = (r, s')"
  shows "extends (\<lambda>c. \<not> is_write c) s s'"
proof -
  obtain r1 s1 where del: "check_for_deletion d self lfs [] s = (r1, s1)"
    by (cases "check_for_deletion d self lfs [] s")
  from syn have "wf_tree (tree s)" "\<forall>q. q \<noteq> [] \<longrightarrow> matches lfs q (obs (tree s) q)"
    by (simp_all add: synced_def)
  have "tree s1 = tree s \<and> extends is_read s s1"
  proof (cases "is_dir (rlookup (tree s) [])")
    case True
    with \<open>wf_tree (tree s)\<close> \<open>\<forall>q. q \<noteq> [] \<longrightarrow> matches lfs q (obs (tree s) q)\<close>
    show ?thesis by (intro check_for_deletion_idle[OF ff _ _ _ del]) simp_all
  next
    case False
    then have nd: "\<forall>m cs. tree s \<noteq> Some (Dir m cs)" by (cases "tree s") auto
    show ?thesis
    proof (cases d)
      case 0
      with del show ?thesis by (simp add: extends_refl)
    next
      case (Suc d')
      from sftp_listdir_attr_not_dir[OF nd] Suc del
      have "s1 = s\<lparr>log := log s @ [Listdir []]\<rparr>" by auto
      then show ?thesis by (auto intro!: extends_log_only)
    qed
  qed
  then have t1: "tree s1 = tree s" and ex1: "extends is_read s s1" by simp_all
  have ex1': "extends (\<lambda>c. \<not> is_write c) s s1"
  proof (rule extends_mono[OF ex1])
    fix c show "is_read c \<Longrightarrow> \<not> is_write c" by (cases c) simp_all
  qed
  show ?thesis
  proof (cases r1)
    case (Return u)
    with run del have cre: "check_for_upload_create d self lfs [] s1 = (r, s')"
      by (simp add: run_def)
    have ff1: "faults s1 = (\<lambda>c. None)" using ex1 ff by (simp add: extends_def)
    have syn1: "synced self lfs (tree s1)" using syn t1 by simp
    from check_for_upload_create_idle[OF ff1 syn1 _ cre]
    have "extends (\<lambda>c. \<not> is_write c) s1 s'" by simp
    with ex1' show ?thesis by (rule extends_trans)
  next
    case (Raise e)
    with run del ex1' show ?thesis by (simp add: run_def)
  next
    case Struct_error
    with run del ex1' show ?thesis by (simp add: run_def)
  next
    case Exhausted
    with run del ex1' show ?thesis by (simp add: run_def)
  qed
qed

section \<open>Idempotence\<close>

text \<open>
  Where nothing is refused, a second run is idle. For every local tree and every
  well-formed remote tree (no directory lists a name twice), on a server that refuses no
  call and whose listing reports no symbolic link as a directory: when a run returned
  normally, the next run with the same local tree, at any recursion depth, performs no
  upload, no creation of a directory or of a symbolic link and no deletion.
\<close>

lemma second_run_idle:
  assumes "faults s = (\<lambda>c. None)" and "wf_tree (tree s)"
    and "fst (run d self lfs s) = Return ()"
    and "no_link_as_dir s"
  shows "\<forall>c\<in>set (ops_since (snd (run d self lfs s)) (snd (run d' self lfs (snd (run d self lfs s))))).
           \<not> is_write c"
proof -
  let ?s1 = "snd (run d self lfs s)"
  have r1: "run d self lfs s = (Return (), ?s1)" using assms(3) by (simp add: prod_eq_iff)
  from run_synced[OF assms(1,2) r1 assms(4)]
  have ff1: "faults ?s1 = (\<lambda>c. None)" and syn: "synced self lfs (tree ?s1)" by simp_all
  have "extends (\<lambda>c. \<not> is_write c) ?s1 (snd (run d' self lfs ?s1))"
    by (rule run_idle[OF ff1 syn, of d' "fst (run d' self lfs ?s1)"]) simp
  then show ?thesis by (blast dest: extends_ops_since)
qed

lemma second_run_idle_example:
  "faults ex_remote_x = (\<lambda>c. None) \<and> wf_tree (tree ex_remote_x)
   \<and> no_link_as_dir ex_remote_x
   \<and> fst (run 3 (ex_self False) ex_local_f ex_remote_x) = Return ()
   \<and> Put [''f''] [''f''] \<in> set (ops_since ex_remote_x (snd (run 3 (ex_self False) ex_local_f ex_remote_x)))
   \<and> Put [''f''] [''f''] \<notin> set (ops_since (snd (run 3 (ex_self False) ex_local_f ex_remote_x))
         (snd (run 3 (ex_self False) ex_local_f (snd (run 3 (ex_self False) ex_local_f ex_remote_x)))))"
proof -
  have h1: "faults ex_remote_x = (\<lambda>c. None)" by (simp add: ex_remote_x_def)
  have h2: "wf_tree (tree ex_remote_x)" by (simp add: ex_remote_x_def wf_tree_def)
  have h3: "fst (run 3 (ex_self False) ex_local_f ex_remote_x) = Return ()" by code_simp
  have h4: "Put [''f''] [''f''] \<in> set (ops_since ex_remote_x (snd (run 3 (ex_self False) ex_local_f ex_remote_x)))"
    by code_simp
  have h5: "no_link_as_dir ex_remote_x" by (simp add: ex_remote_x_def no_link_as_dir_def)
  from second_run_idle[OF h1 h2 h3 h5, of 3]
  have "Put [''f''] [''f''] \<notin> set (ops_since (snd (run 3 (ex_self False) ex_local_f ex_remote_x))
         (snd (run 3 (ex_self False) ex_local_f (snd (run 3 (ex_self False) ex_local_f ex_remote_x)))))"
    using is_write.simps(5) by blast
  with h1 h2 h3 h4 h5 show ?thesis by blast
qed

text \<open>
  Claim C9 fails on the code when the server refuses a call that follows a \<open>put\<close>: in the
  regular-file branch the refusal is caught and dropped. Below, the file \<open>f\<close> exists remotely
  with another size, and the server refuses its \<open>chmod\<close>. The first run uploads the file
  and returns normally, the remote file keeping the time of the upload instead of the local
  modification time; the second run, with the same local tree, uploads the file again.
\<close>

theorem second_run_uploads_again:
  "run 1 (ex_self False) ex_local_f ex_remote_locked
     = (Return (),
        ex_remote_locked\<lparr>log := [Listdir [], Lstat [''f''], Lstat [''f''], Put [''f''] [''f''],
                                  Chmod [''f''] 420],
           tree := Some (Dir (rmeta 0 0) [(''f'', Reg (rmeta 100 50))])\<rparr>)
   \<and> ops_since (snd (run 1 (ex_self False) ex_local_f ex_remote_locked))
        (snd (run 1 (ex_self False) ex_local_f (snd (run 1 (ex_self False) ex_local_f ex_remote_locked))))
       = [Listdir [], Lstat [''f''], Lstat [''f''], Put [''f''] [''f''], Chmod [''f''] 420]"
proof -
  have r1: "run 1 (ex_self False) ex_local_f ex_remote_locked
     = (Return (),
        ex_remote_locked\<lparr>log := [Listdir [], Lstat [''f''], Lstat [''f''], Put [''f''] [''f''],
                                  Chmod [''f''] 420],
           tree := Some (Dir (rmeta 0 0) [(''f'', Reg (rmeta 100 50))])\<rparr>)"
    by (simp add: ex_defs ex_local_f_def ex_remote_locked_def run_def sftp_defs serve_defs
        local_defs must_be_deleted_def node_check_for_upload_create.simps file_upload_def
        match_modes_def file_need_upload_def set_attr_def parent_is_dir_def py_int_def)
  have "ops_since (ex_remote_locked\<lparr>log := [Listdir [], Lstat [''f''], Lstat [''f''], Put [''f''] [''f''],
                                  Chmod [''f''] 420],
           tree := Some (Dir (rmeta 0 0) [(''f'', Reg (rmeta 100 50))])\<rparr>)
        (snd (run 1 (ex_self False) ex_local_f
           (ex_remote_locked\<lparr>log := [Listdir [], Lstat [''f''], Lstat [''f''], Put [''f''] [''f''],
                                  Chmod [''f''] 420],
           tree := Some (Dir (rmeta 0 0) [(''f'', Reg (rmeta 100 50))])\<rparr>)))
       = [Listdir [], Lstat [''f''], Lstat [''f''], Put [''f''] [''f''], Chmod [''f''] 420]"
    by (simp add: ex_defs ex_local_f_def ex_remote_locked_def run_def sftp_defs serve_defs
        local_defs must_be_deleted_def node_check_for_upload_create.simps file_upload_def
        match_modes_def file_need_upload_def set_attr_def parent_is_dir_def py_int_def
        ops_since_def)
  with r1 show ?thesis by simp
qed

end
